theory Spec2Isabelle
  imports Main "HOL-Library.AList"
begin

section \<open>JSON values and their canonical encoding\<close>

text \<open>
  The aggregation script (the byte-budget version of \<open>scripts/aggregate.mjs\<close>) handles the
  values that \<open>JSON.parse\<close> returns and prints them with
  \<open>JSON.stringify(value, null, 2) + "\n"\<close>. A value is modelled by the datatype below.
  Strings are held as their UTF-8 bytes, so that \<open>Buffer.byteLength(s, "utf8")\<close> is the
  length of the list. Numbers are the integers that JavaScript prints in plain decimal;
  fractions and exponents are outside the model. An object is the list of its own
  properties in enumeration order.
\<close>

datatype json =
    JNull
  | JBool bool
  | JNum int
  | JStr string
  | JArr "json list"
  | JObj "(string \<times> json) list"

definition nl :: string where
  "nl = [CHR 0x0A]"

definition gap :: string where
  "gap = ''  ''"

fun join :: "string \<Rightarrow> string list \<Rightarrow> string" where
  "join sep [] = []"
| "join sep [x] = x"
| "join sep (x # y # ys) = x @ sep @ join sep (y # ys)"

definition decDigit :: "nat \<Rightarrow> char" where
  "decDigit n = ''0123456789'' ! n"

fun decimal :: "nat \<Rightarrow> string" where
  "decimal n = (if n < 10 then [decDigit n] else decimal (n div 10) @ [decDigit (n mod 10)])"

declare decimal.simps [simp del]

definition NumberToString :: "int \<Rightarrow> string" where
  "NumberToString i = (if i < 0 then CHR ''-'' # decimal (nat (- i)) else decimal (nat i))"

definition hexDigit :: "nat \<Rightarrow> char" where
  "hexDigit n = ''0123456789abcdef'' ! n"

text \<open>
  \<open>QuoteJSONString\<close> of ECMAScript: the quote and the backslash are escaped, the control
  characters below U+0020 get their short form or \<open>\u00XX\<close>, every other byte is kept.
\<close>

definition quoteChar :: "char \<Rightarrow> string" where
  "quoteChar c =
     (if c = CHR 0x22 then [CHR 0x5C, CHR 0x22]
      else if c = CHR 0x5C then [CHR 0x5C, CHR 0x5C]
      else if c = CHR 0x08 then [CHR 0x5C, CHR ''b'']
      else if c = CHR 0x0C then [CHR 0x5C, CHR ''f'']
      else if c = CHR 0x0A then [CHR 0x5C, CHR ''n'']
      else if c = CHR 0x0D then [CHR 0x5C, CHR ''r'']
      else if c = CHR 0x09 then [CHR 0x5C, CHR ''t'']
      else if (of_char c :: nat) < 32
        then [CHR 0x5C, CHR ''u'', CHR ''0'', CHR ''0'',
              hexDigit ((of_char c :: nat) div 16), hexDigit ((of_char c :: nat) mod 16)]
      else [c])"

definition QuoteJSONString :: "string \<Rightarrow> string" where
  "QuoteJSONString s = CHR 0x22 # concat (map quoteChar s) @ [CHR 0x22]"

text \<open>
  \<open>SerializeJSONProperty\<close> with the current indentation as first argument. An empty
  array is \<open>[]\<close> and an empty object \<open>{}\<close>; otherwise every element stands on a line of
  its own, indented by one more \<open>gap\<close>, and the closing bracket is at the old indentation.
\<close>

fun SerializeJSONProperty :: "string \<Rightarrow> json \<Rightarrow> string" where
  "SerializeJSONProperty indent JNull = ''null''"
| "SerializeJSONProperty indent (JBool b) = (if b then ''true'' else ''false'')"
| "SerializeJSONProperty indent (JNum n) = NumberToString n"
| "SerializeJSONProperty indent (JStr s) = QuoteJSONString s"
| "SerializeJSONProperty indent (JArr vs) =
     (if vs = [] then ''[]''
      else ''['' @ nl @ (indent @ gap)
           @ join ('','' @ nl @ (indent @ gap)) (map (SerializeJSONProperty (indent @ gap)) vs)
           @ nl @ indent @ '']'')"
| "SerializeJSONProperty indent (JObj ps) =
     (if ps = [] then ''{}''
      else ''{'' @ nl @ (indent @ gap)
           @ join ('','' @ nl @ (indent @ gap))
               (map (\<lambda>p. QuoteJSONString (fst p) @ '': '' @ SerializeJSONProperty (indent @ gap) (snd p)) ps)
           @ nl @ indent @ ''}'')"

definition JSON_stringify :: "json \<Rightarrow> string" where
  "JSON_stringify v = SerializeJSONProperty [] v"

definition byteLength :: "string \<Rightarrow> nat" where
  "byteLength s = length s"

text \<open>The text that \<open>writeJson\<close> puts into a file.\<close>

definition fileText :: "json \<Rightarrow> string" where
  "fileText v = JSON_stringify v @ nl"

section \<open>The byte-budget partitioner of \<open>writeChunkedAll\<close>\<close>

text \<open>
  \<open>MAX_CHUNK_BYTES\<close> is the integer read from the environment; it is the first argument
  of every function that uses it. \<open>fitsWith\<close> serialises the chunk with the candidate
  appended and compares the byte length with the budget. Its \<open>catch\<close> branch answers
  \<open>false\<close> when \<open>JSON.stringify\<close> throws, which it does not on a value of the model.
\<close>

definition fitsWith :: "int \<Rightarrow> json list \<Rightarrow> json \<Rightarrow> bool" where
  "fitsWith MAX_CHUNK_BYTES arr item =
     (int (byteLength (JSON_stringify (JArr (arr @ [item])) @ nl)) \<le> MAX_CHUNK_BYTES)"

text \<open>
  The \<open>for (const v of values)\<close> loop, with the two variables it updates: the sealed
  chunks \<open>chunkArrays\<close> and the open chunk \<open>current\<close>.
\<close>

fun chunkLoop :: "int \<Rightarrow> json list \<Rightarrow> json list list \<Rightarrow> json list \<Rightarrow> json list list \<times> json list" where
  "chunkLoop B [] chunkArrays current = (chunkArrays, current)"
| "chunkLoop B (v # vs) chunkArrays current =
     (if length current = 0 then chunkLoop B vs chunkArrays (current @ [v])
      else if fitsWith B current v then chunkLoop B vs chunkArrays (current @ [v])
      else chunkLoop B vs (chunkArrays @ [current]) [v])"

definition chunkArrays :: "int \<Rightarrow> json list \<Rightarrow> json list list" where
  "chunkArrays B vals =
     (case chunkLoop B vals [] [] of
        (sealed, current) \<Rightarrow> if length current \<noteq> 0 then sealed @ [current] else sealed)"

text \<open>Byte length of a chunk in the file written for it, and of one record printed alone.\<close>

definition chunkBytes :: "json list \<Rightarrow> int" where
  "chunkBytes c = int (byteLength (fileText (JArr c)))"

definition recordBytes :: "json \<Rightarrow> int" where
  "recordBytes r = int (byteLength (fileText r))"

text \<open>
  Positions of the input inside the partition: chunk \<open>j\<close> starts at the position
  \<open>chunkStart cs j\<close> of the concatenation, and position \<open>i\<close> lies in chunk \<open>j\<close> when it
  falls between that start and the start of the next chunk.
\<close>

definition chunkStart :: "json list list \<Rightarrow> nat \<Rightarrow> nat" where
  "chunkStart cs j = length (concat (take j cs))"

definition inChunk :: "json list list \<Rightarrow> nat \<Rightarrow> nat \<Rightarrow> bool" where
  "inChunk cs j i = (j < length cs \<and> chunkStart cs j \<le> i \<and> i < chunkStart cs j + length (cs ! j))"

text \<open>What the loop maintains for every chunk: it is not empty, and it holds one record
  or has passed the size test.\<close>

definition accepted :: "int \<Rightarrow> json list \<Rightarrow> bool" where
  "accepted B c = (c \<noteq> [] \<and> (length c = 1 \<or> chunkBytes c \<le> B))"

section \<open>File names\<close>

text \<open>
  \<open>toLowerCase\<close> and the case-insensitive pattern act on the ASCII letters only; that
  is all the tests below depend on, since they compare against ASCII text.
\<close>

definition lowerChar :: "char \<Rightarrow> char" where
  "lowerChar c =
     (if 65 \<le> (of_char c :: nat) \<and> (of_char c :: nat) \<le> 90 then char_of ((of_char c :: nat) + 32)
      else c)"

definition toLowerCase :: "string \<Rightarrow> string" where
  "toLowerCase s = map lowerChar s"

definition endsWith :: "string \<Rightarrow> string \<Rightarrow> bool" where
  "endsWith s suffix = (length suffix \<le> length s \<and> drop (length s - length suffix) s = suffix)"

definition isDigit :: "char \<Rightarrow> bool" where
  "isDigit c = (48 \<le> (of_char c :: nat) \<and> (of_char c :: nat) \<le> 57)"

text \<open>The pattern \<open>/^all(_\d+)?\.json$/i\<close> of \<open>cleanAllFiles\<close>.\<close>

definition matchesAll :: "string \<Rightarrow> bool" where
  "matchesAll f =
     (let s = toLowerCase f in
      s = ''all.json'' \<or>
      (take 4 s = ''all_'' \<and> endsWith s ''.json''
       \<and> drop 4 (take (length s - 5) s) \<noteq> []
       \<and> list_all isDigit (drop 4 (take (length s - 5) s))))"

text \<open>\<open>Array.prototype.sort\<close> with a comparator: a stable insertion sort.\<close>

fun insertBy :: "(string \<Rightarrow> string \<Rightarrow> int) \<Rightarrow> string \<Rightarrow> string list \<Rightarrow> string list" where
  "insertBy cmp x [] = [x]"
| "insertBy cmp x (y # ys) = (if cmp x y \<le> 0 then x # y # ys else y # insertBy cmp x ys)"

definition sortBy :: "(string \<Rightarrow> string \<Rightarrow> int) \<Rightarrow> string list \<Rightarrow> string list" where
  "sortBy cmp xs = foldr (insertBy cmp) xs []"

section \<open>The run-time environment\<close>

text \<open>
  What the script takes from outside: the built-ins \<open>JSON.parse\<close> (\<open>None\<close> when it
  throws) and \<open>String.prototype.localeCompare\<close> for the locale \<open>en\<close>, and the two
  environment variables. \<open>MAX_CHUNK_BYTES\<close> is the integer that \<open>Number.parseInt\<close> has
  read from \<open>AGGREGATE_MAX_CHUNK_BYTES\<close> or from the default \<open>1800000\<close>; a setting
  from which it reads no number at all is outside the model.
\<close>

record env =
  JSON_parse :: "string \<Rightarrow> json option"
  localeCompare :: "string \<Rightarrow> string \<Rightarrow> int"
  GITHUB_SHA :: "string option"
  MAX_CHUNK_BYTES :: int

text \<open>\<open>const VERSION = process.env.GITHUB_SHA || null\<close>: an empty value counts as absent.\<close>

definition VERSION :: "env \<Rightarrow> string option" where
  "VERSION E = (case GITHUB_SHA E of None \<Rightarrow> None | Some s \<Rightarrow> if s = [] then None else Some s)"

text \<open>The truth value of a JavaScript value, and its \<open>typeof\<close>.\<close>

fun truthy :: "json \<Rightarrow> bool" where
  "truthy JNull = False"
| "truthy (JBool b) = b"
| "truthy (JNum n) = (n \<noteq> 0)"
| "truthy (JStr s) = (s \<noteq> [])"
| "truthy (JArr vs) = True"
| "truthy (JObj ps) = True"

fun typeof :: "json \<Rightarrow> string" where
  "typeof JNull = ''object''"
| "typeof (JBool b) = ''boolean''"
| "typeof (JNum n) = ''number''"
| "typeof (JStr s) = ''string''"
| "typeof (JArr vs) = ''object''"
| "typeof (JObj ps) = ''object''"

section \<open>The file system and the effects of a run\<close>

text \<open>
  The working directory \<open>ROOT\<close> is a list of named entries in the order \<open>readdir\<close>
  reports them. A file carries two flags, whether \<open>rm\<close> on it succeeds and whether
  \<open>writeFile\<close> on it succeeds, and its text. A path is the list of its components
  below \<open>ROOT\<close>.
\<close>

datatype node =
    File bool bool string
  | Dir "(string \<times> node) list"

datatype error = ENOENT | ENOTDIR | EISDIR | EPERM

datatype event =
    Wrote "string list" string
  | Removed "string list"
  | Warned string
  | Logged string

record world =
  root :: "(string \<times> node) list"
  trace :: "event list"

text \<open>A step of the script returns the world it leaves and either the error thrown or
  its value.\<close>

definition andThen :: "(world \<Rightarrow> world \<times> (error + 'a)) \<Rightarrow> ('a \<Rightarrow> world \<Rightarrow> world \<times> (error + 'b)) \<Rightarrow> world \<Rightarrow> world \<times> (error + 'b)" where
  "andThen m f w =
     (case m w of
        (w', Inl e) \<Rightarrow> (w', Inl e)
      | (w', Inr a) \<Rightarrow> f a w')"

definition stat :: "(string \<times> node) list \<Rightarrow> string \<Rightarrow> error + bool" where
  "stat es d =
     (case map_of es d of
        None \<Rightarrow> Inl ENOENT
      | Some (File r wr t) \<Rightarrow> Inr False
      | Some (Dir ds) \<Rightarrow> Inr True)"

definition dirEntries :: "(string \<times> node) list \<Rightarrow> string \<Rightarrow> (string \<times> node) list" where
  "dirEntries es d = (case map_of es d of Some (Dir ds) \<Rightarrow> ds | _ \<Rightarrow> [])"

definition readdir :: "(string \<times> node) list \<Rightarrow> string \<Rightarrow> string list" where
  "readdir es d = map fst (dirEntries es d)"

definition readFile :: "(string \<times> node) list \<Rightarrow> string \<Rightarrow> string \<Rightarrow> error + string" where
  "readFile es d f =
     (case map_of (dirEntries es d) f of
        None \<Rightarrow> Inl ENOENT
      | Some (Dir ds) \<Rightarrow> Inl EISDIR
      | Some (File r wr t) \<Rightarrow> Inr t)"

definition putFile :: "(string \<times> node) list \<Rightarrow> string \<Rightarrow> string \<Rightarrow> error + (string \<times> node) list" where
  "putFile es f s =
     (case map_of es f of
        None \<Rightarrow> Inr (AList.update f (File True True s) es)
      | Some (Dir ds) \<Rightarrow> Inl EISDIR
      | Some (File r wr t) \<Rightarrow> if wr then Inr (AList.update f (File r wr s) es) else Inl EPERM)"

definition writeFile :: "string list \<Rightarrow> string \<Rightarrow> world \<Rightarrow> world \<times> (error + unit)" where
  "writeFile p s w =
     (case p of
        [f] \<Rightarrow>
          (case putFile (root w) f s of
             Inl e \<Rightarrow> (w, Inl e)
           | Inr es \<Rightarrow> (w\<lparr>root := es, trace := trace w @ [Wrote p s]\<rparr>, Inr ()))
      | [d, f] \<Rightarrow>
          (case map_of (root w) d of
             None \<Rightarrow> (w, Inl ENOENT)
           | Some (File r wr t) \<Rightarrow> (w, Inl ENOTDIR)
           | Some (Dir ds) \<Rightarrow>
               (case putFile ds f s of
                  Inl e \<Rightarrow> (w, Inl e)
                | Inr ds' \<Rightarrow>
                    (w\<lparr>root := AList.update d (Dir ds') (root w), trace := trace w @ [Wrote p s]\<rparr>,
                     Inr ())))
      | _ \<Rightarrow> (w, Inl ENOENT))"

text \<open>\<open>rm(path, { force: true })\<close>: a missing file is no error.\<close>

definition rm :: "string \<Rightarrow> string \<Rightarrow> world \<Rightarrow> world \<times> (error + unit)" where
  "rm d f w =
     (case map_of (dirEntries (root w) d) f of
        None \<Rightarrow> (w, Inr ())
      | Some (Dir ds) \<Rightarrow> (w, Inl EISDIR)
      | Some (File r wr t) \<Rightarrow>
          if r then (w\<lparr>root := AList.update d (Dir (AList.delete f (dirEntries (root w) d))) (root w),
                       trace := trace w @ [Removed [d, f]]\<rparr>, Inr ())
          else (w, Inl EPERM))"

definition console_warn :: "string \<Rightarrow> world \<Rightarrow> world" where
  "console_warn msg w = w\<lparr>trace := trace w @ [Warned msg]\<rparr>"

definition console_log :: "string \<Rightarrow> world \<Rightarrow> world" where
  "console_log msg w = w\<lparr>trace := trace w @ [Logged msg]\<rparr>"

section \<open>The script\<close>

subsection \<open>\<open>readJsonDir\<close>\<close>

definition inputFiles :: "env \<Rightarrow> (string \<times> node) list \<Rightarrow> string \<Rightarrow> string list" where
  "inputFiles E es dir =
     sortBy (localeCompare E)
       (filter (\<lambda>f. toLowerCase f \<noteq> ''all.json'')
          (filter (\<lambda>f. endsWith (toLowerCase f) ''.json'') (readdir es dir)))"

definition skipMessage :: "string \<Rightarrow> string \<Rightarrow> string" where
  "skipMessage dir f = ''[aggregate] Skip invalid JSON: '' @ dir @ ''/'' @ f"

text \<open>The body of the loop, with the \<open>try\<close> around reading and parsing one file.\<close>

fun readLoop :: "env \<Rightarrow> string \<Rightarrow> string list \<Rightarrow> json list \<Rightarrow> world \<Rightarrow> world \<times> json list" where
  "readLoop E dir [] out w = (w, out)"
| "readLoop E dir (f # fs) out w =
     (case readFile (root w) dir f of
        Inl e \<Rightarrow> readLoop E dir fs out (console_warn (skipMessage dir f) w)
      | Inr raw \<Rightarrow>
          (case JSON_parse E raw of
             None \<Rightarrow> readLoop E dir fs out (console_warn (skipMessage dir f) w)
           | Some json \<Rightarrow>
               if truthy json \<and> typeof json = ''object'' then readLoop E dir fs (out @ [json]) w
               else readLoop E dir fs out w))"

definition readJsonDir :: "env \<Rightarrow> string \<Rightarrow> world \<Rightarrow> world \<times> json list" where
  "readJsonDir E dir w =
     (case stat (root w) dir of
        Inl e \<Rightarrow> (w, [])
      | Inr isDirectory \<Rightarrow>
          if \<not> isDirectory then (w, [])
          else readLoop E dir (inputFiles E (root w) dir) [] w)"

subsection \<open>\<open>writeJson\<close> and \<open>cleanAllFiles\<close>\<close>

definition writeJson :: "string list \<Rightarrow> json \<Rightarrow> world \<Rightarrow> world \<times> (error + unit)" where
  "writeJson file v w = writeFile file (JSON_stringify v @ nl) w"

text \<open>Every target is removed inside its own \<open>try\<close>, whose \<open>catch\<close> is empty.\<close>

fun rmAll :: "string \<Rightarrow> string list \<Rightarrow> world \<Rightarrow> world" where
  "rmAll dir [] w = w"
| "rmAll dir (f # fs) w =
     (case rm dir f w of
        (w', Inl e) \<Rightarrow> rmAll dir fs w'
      | (w', Inr u) \<Rightarrow> rmAll dir fs w')"

definition cleanAllFiles :: "string \<Rightarrow> world \<Rightarrow> world" where
  "cleanAllFiles dir w =
     (case stat (root w) dir of
        Inl e \<Rightarrow> w
      | Inr isDirectory \<Rightarrow>
          if \<not> isDirectory then w
          else rmAll dir (filter matchesAll (readdir (root w) dir)) w)"

subsection \<open>\<open>writeChunkedAll\<close>\<close>

definition chunkName :: "nat \<Rightarrow> string" where
  "chunkName i = ''all_'' @ decimal (i + 1) @ ''.json''"

fun writeChunks :: "string \<Rightarrow> json list list \<Rightarrow> nat \<Rightarrow> string list \<Rightarrow> world \<Rightarrow> world \<times> (error + string list)" where
  "writeChunks dir [] i chunkFiles w = (w, Inr chunkFiles)"
| "writeChunks dir (c # cs) i chunkFiles w =
     (case writeJson [dir, chunkName i] (JArr c) w of
        (w', Inl e) \<Rightarrow> (w', Inl e)
      | (w', Inr u) \<Rightarrow> writeChunks dir cs (i + 1) (chunkFiles @ [chunkName i]) w')"

definition manifest :: "env \<Rightarrow> string list \<Rightarrow> json list \<Rightarrow> json" where
  "manifest E chunkFiles vals =
     JObj ([(''chunks'', JArr (map JStr chunkFiles)),
            (''count'', JNum (int (length vals))),
            (''maxChunkBytes'', JNum (MAX_CHUNK_BYTES E))]
           @ (case VERSION E of None \<Rightarrow> [] | Some v \<Rightarrow> if v = [] then [] else [(''version'', JStr v)]))"

definition writeChunkedAll :: "env \<Rightarrow> string \<Rightarrow> json list \<Rightarrow> world \<Rightarrow> world \<times> (error + string list)" where
  "writeChunkedAll E dir vals w =
     (if length vals = 0 then (w, Inr [])
      else case stat (root w) dir of
        Inl e \<Rightarrow> (w, Inr [])
      | Inr isDirectory \<Rightarrow>
          if \<not> isDirectory then (w, Inr [])
          else
            andThen (writeChunks dir (chunkArrays (MAX_CHUNK_BYTES E) vals) 0 [])
              (\<lambda>chunkFiles.
                 andThen
                   (if length (chunkArrays (MAX_CHUNK_BYTES E) vals) = 1
                    then writeJson [dir, ''all.json''] (JArr (chunkArrays (MAX_CHUNK_BYTES E) vals ! 0))
                    else writeJson [dir, ''all.json''] (manifest E chunkFiles vals))
                   (\<lambda>u w2. (w2, Inr chunkFiles))) w)"

subsection \<open>\<open>aggregate\<close>\<close>

text \<open>
  The block that \<open>aggregate\<close> repeats for each of the three directories, and the
  guarded write of a legacy root file. The outcome \<open>Inl e\<close> of \<open>aggregate\<close> is the
  rejection that the last lines of the script log before \<open>process.exit(1)\<close>.
\<close>

definition perDirectory :: "env \<Rightarrow> string \<Rightarrow> json list \<Rightarrow> world \<Rightarrow> world \<times> (error + unit)" where
  "perDirectory E dir vals w =
     (if length vals > 0
      then andThen (writeChunkedAll E dir vals) (\<lambda>chunkFiles w'. (w', Inr ())) (cleanAllFiles dir w)
      else (w, Inr ()))"

definition legacyItems :: "env \<Rightarrow> json list \<Rightarrow> json" where
  "legacyItems E vals =
     (case VERSION E of
        None \<Rightarrow> JObj [(''items'', JArr vals)]
      | Some v \<Rightarrow> if v = [] then JObj [(''items'', JArr vals)]
                  else JObj [(''version'', JStr v), (''items'', JArr vals)])"

definition legacyFile :: "string \<Rightarrow> json list \<Rightarrow> json \<Rightarrow> world \<Rightarrow> world \<times> (error + unit)" where
  "legacyFile name vals v w = (if length vals > 0 then writeJson [name] v w else (w, Inr ()))"

definition aggregate :: "env \<Rightarrow> world \<Rightarrow> world \<times> (error + unit)" where
  "aggregate E w0 =
     (case readJsonDir E ''items'' w0 of (w1, items) \<Rightarrow>
      case readJsonDir E ''quests'' w1 of (w2, quests) \<Rightarrow>
      case readJsonDir E ''hideout'' w2 of (w3, hideout) \<Rightarrow>
        andThen (perDirectory E ''items'' items) (\<lambda>u.
        andThen (perDirectory E ''quests'' quests) (\<lambda>u.
        andThen (perDirectory E ''hideout'' hideout) (\<lambda>u.
        andThen (legacyFile ''items.json'' items (legacyItems E items)) (\<lambda>u.
        andThen (legacyFile ''quests.json'' quests (JArr quests)) (\<lambda>u.
        andThen (legacyFile ''hideoutModules.json'' hideout (JArr hideout)) (\<lambda>u w.
          (console_log ''[aggregate] Done.'' w, Inr ()))))))) w3)"

section \<open>Notions used to state the properties of the script\<close>

text \<open>
  What reading and parsing one input file yields (\<open>None\<close> when either step throws) and
  the value the reader keeps for it.
\<close>

definition parsedFile :: "env \<Rightarrow> (string \<times> node) list \<Rightarrow> string \<Rightarrow> string \<Rightarrow> json option" where
  "parsedFile E es dir f = (case readFile es dir f of Inl e \<Rightarrow> None | Inr raw \<Rightarrow> JSON_parse E raw)"

definition keptValue :: "env \<Rightarrow> (string \<times> node) list \<Rightarrow> string \<Rightarrow> string \<Rightarrow> json option" where
  "keptValue E es dir f =
     (case parsedFile E es dir f of
        None \<Rightarrow> None
      | Some v \<Rightarrow> if truthy v \<and> typeof v = ''object'' then Some v else None)"

text \<open>A property of an object, by name.\<close>

definition field :: "string \<Rightarrow> json \<Rightarrow> json option" where
  "field k v = (case v of JObj ps \<Rightarrow> map_of ps k | _ \<Rightarrow> None)"

text \<open>Which entries \<open>rm\<close> can remove, and which survive the removal of a list of targets.\<close>

definition canRemove :: "node \<Rightarrow> bool" where
  "canRemove n = (case n of File r wr t \<Rightarrow> r | Dir ds \<Rightarrow> False)"

definition survives :: "string list \<Rightarrow> string \<times> node \<Rightarrow> bool" where
  "survives targets e = (\<not> (fst e \<in> set targets \<and> canRemove (snd e)))"

text \<open>
  The trace only grows: \<open>extends P w w'\<close> says that \<open>w'\<close> has the events of \<open>w\<close>
  followed by new events that all satisfy \<open>P\<close>. The other predicates sort the events by
  the directory or the root file they act on.
\<close>

definition extends :: "(event \<Rightarrow> bool) \<Rightarrow> world \<Rightarrow> world \<Rightarrow> bool" where
  "extends P w w' = (\<exists>new. trace w' = trace w @ new \<and> list_all P new)"

definition inDir :: "string \<Rightarrow> string list \<Rightarrow> bool" where
  "inDir d p = (case p of [d', f] \<Rightarrow> d' = d | _ \<Rightarrow> False)"

definition wroteIn :: "string \<Rightarrow> event \<Rightarrow> bool" where
  "wroteIn d e = (case e of Wrote p s \<Rightarrow> inDir d p | _ \<Rightarrow> False)"

definition removedIn :: "string \<Rightarrow> event \<Rightarrow> bool" where
  "removedIn d e = (case e of Removed p \<Rightarrow> inDir d p | _ \<Rightarrow> False)"

definition dirEvent :: "string \<Rightarrow> event \<Rightarrow> bool" where
  "dirEvent d e = (wroteIn d e \<or> removedIn d e)"

definition touches :: "string \<Rightarrow> string \<Rightarrow> event \<Rightarrow> bool" where
  "touches dir legacy e =
     (case e of
        Wrote p s \<Rightarrow> p = [legacy] \<or> inDir dir p
      | Removed p \<Rightarrow> p = [legacy] \<or> inDir dir p
      | Warned m \<Rightarrow> False
      | Logged m \<Rightarrow> False)"

text \<open>
  Every path the script writes to is writable: in each of the three directories the
  entries with a generated name are writable files, and so are the three legacy files
  where they exist. Nothing is asked of \<open>rm\<close>.
\<close>

definition isWritable :: "node \<Rightarrow> bool" where
  "isWritable n = (case n of File r wr t \<Rightarrow> wr | Dir ds \<Rightarrow> False)"

definition okEntry :: "string \<times> node \<Rightarrow> bool" where
  "okEntry e = (matchesAll (fst e) \<longrightarrow> isWritable (snd e))"

definition dirOk :: "(string \<times> node) list \<Rightarrow> string \<Rightarrow> bool" where
  "dirOk r d = (case map_of r d of Some (Dir ds) \<Rightarrow> list_all okEntry ds | _ \<Rightarrow> True)"

definition fileOk :: "(string \<times> node) list \<Rightarrow> string \<Rightarrow> bool" where
  "fileOk r f = (case map_of r f of Some n \<Rightarrow> isWritable n | None \<Rightarrow> True)"

definition targetsWritable :: "(string \<times> node) list \<Rightarrow> bool" where
  "targetsWritable r =
     (dirOk r ''items'' \<and> dirOk r ''quests'' \<and> dirOk r ''hideout''
      \<and> fileOk r ''items.json'' \<and> fileOk r ''quests.json'' \<and> fileOk r ''hideoutModules.json'')"

text \<open>A step that replaces the entries of one directory by entries that are still
  writable, and a step that succeeds from every world with writable targets.\<close>

definition dirStep :: "string \<Rightarrow> world \<Rightarrow> world \<Rightarrow> bool" where
  "dirStep d w w' = (\<exists>ds'. list_all okEntry ds' \<and> root w' = AList.update d (Dir ds') (root w))"

definition okStep :: "(world \<Rightarrow> world \<times> (error + unit)) \<Rightarrow> bool" where
  "okStep m = (\<forall>w::world. targetsWritable (root w) \<longrightarrow> (\<exists>w'. m w = (w', Inr ()) \<and> targetsWritable (root w')))"


text \<open>
  The events a run of the script leaves for one directory: the removal of every entry
  that matches the pattern and can be removed, in the order of the listing, and the
  writes of the chunk files followed by the write of \<open>all.json\<close>.
\<close>

definition removals :: "string \<Rightarrow> (string \<times> node) list \<Rightarrow> event list" where
  "removals dir ds =
     map (\<lambda>e. Removed [dir, fst e]) (filter (\<lambda>e. matchesAll (fst e) \<and> canRemove (snd e)) ds)"

definition chunkWrites :: "env \<Rightarrow> string \<Rightarrow> json list \<Rightarrow> event list" where
  "chunkWrites E dir vals =
     map (\<lambda>(k, c). Wrote [dir, chunkName k] (fileText (JArr c)))
       (enumerate 0 (chunkArrays (MAX_CHUNK_BYTES E) vals))
     @ [Wrote [dir, ''all.json'']
          (fileText (if length (chunkArrays (MAX_CHUNK_BYTES E) vals) = 1
                     then JArr (chunkArrays (MAX_CHUNK_BYTES E) vals ! 0)
                     else manifest E (map chunkName [0..<length (chunkArrays (MAX_CHUNK_BYTES E) vals)]) vals))]"

definition removable :: "(string \<times> node) list \<Rightarrow> string \<Rightarrow> bool" where
  "removable ds f = (case map_of ds f of None \<Rightarrow> False | Some n \<Rightarrow> canRemove n)"

text \<open>
  A step keeps a directory when it leaves the entry of that name as it is. Of the steps
  of a run seen from one directory, a foreign step succeeds, keeps the directory and
  adds no event of it; the directory's own step succeeds and adds exactly the given
  events; a run step succeeds and adds these events between events of other places.
\<close>

definition keeps :: "string \<Rightarrow> world \<Rightarrow> world \<Rightarrow> bool" where
  "keeps dir w w' = (map_of (root w') dir = map_of (root w) dir)"

definition foreignStep :: "string \<Rightarrow> (world \<Rightarrow> world \<times> (error + unit)) \<Rightarrow> bool" where
  "foreignStep dir m =
     (\<forall>w::world. targetsWritable (root w) \<longrightarrow>
        (\<exists>w'. m w = (w', Inr ()) \<and> targetsWritable (root w') \<and> keeps dir w w'
              \<and> extends (\<lambda>e. \<not> dirEvent dir e) w w'))"

definition ownStep :: "string \<Rightarrow> (string \<times> node) list \<Rightarrow> event list \<Rightarrow> (world \<Rightarrow> world \<times> (error + unit)) \<Rightarrow> bool" where
  "ownStep dir ds X m =
     (\<forall>w::world. targetsWritable (root w) \<and> map_of (root w) dir = Some (Dir ds) \<longrightarrow>
        (\<exists>w'. m w = (w', Inr ()) \<and> targetsWritable (root w') \<and> trace w' = trace w @ X))"

definition runStep :: "string \<Rightarrow> (string \<times> node) list \<Rightarrow> event list \<Rightarrow> (world \<Rightarrow> world \<times> (error + unit)) \<Rightarrow> bool" where
  "runStep dir ds X m =
     (\<forall>w::world. targetsWritable (root w) \<and> map_of (root w) dir = Some (Dir ds) \<longrightarrow>
        (\<exists>w' pre post. m w = (w', Inr ()) \<and> trace w' = trace w @ pre @ X @ post
              \<and> list_all (\<lambda>e. \<not> dirEvent dir e) pre \<and> list_all (\<lambda>e. \<not> dirEvent dir e) post))"

section \<open>Sample inputs\<close>

text \<open>
  A small environment for the concrete instances: \<open>JSON.parse\<close> is given on the texts
  that occur in them, any other text there is malformed, and file names are compared by
  code unit, which is how the locale \<open>en\<close> orders the names used. The budget is 20 bytes.
\<close>

fun codeUnitCompare :: "string \<Rightarrow> string \<Rightarrow> int" where
  "codeUnitCompare [] [] = 0"
| "codeUnitCompare [] (y # ys) = - 1"
| "codeUnitCompare (x # xs) [] = 1"
| "codeUnitCompare (x # xs) (y # ys) =
     (if (of_char x :: nat) < of_char y then - 1
      else if (of_char y :: nat) < of_char x then 1
      else codeUnitCompare xs ys)"

definition sampleEnv :: env where
  "sampleEnv =
     \<lparr>JSON_parse = map_of [(''{}'', JObj []), (''1'', JNum 1), (fileText (JArr [JObj []]), JArr [JObj []])],
      localeCompare = codeUnitCompare,
      GITHUB_SHA = Some ''abc'',
      MAX_CHUNK_BYTES = 20\<rparr>"

text \<open>An empty \<open>items\<close> directory.\<close>

definition emptyItems :: world where
  "emptyItems = \<lparr>root = [(''items'', Dir [])], trace = []\<rparr>"

text \<open>No item, one quest.\<close>

definition questsOnly :: world where
  "questsOnly =
     \<lparr>root = [(''items'', Dir []), (''quests'', Dir [(''q.json'', File True True ''{}'')])],
      trace = []\<rparr>"

text \<open>One input file whose text is the number 1.\<close>

definition numberFile :: world where
  "numberFile = \<lparr>root = [(''items'', Dir [(''a.json'', File True True ''1'')])], trace = []\<rparr>"

text \<open>
  One input file and the output of an earlier run: \<open>ALL.json\<close> and \<open>all_1.json\<close> can be
  removed, \<open>all_7.json\<close> cannot.
\<close>

definition staleItems :: world where
  "staleItems =
     \<lparr>root = [(''items'',
          Dir [(''a.json'', File True True ''{}''),
               (''ALL.json'', File True True (fileText (JArr [JObj []]))),
               (''all_1.json'', File True True (fileText (JArr [JObj []]))),
               (''all_7.json'', File False True ''oops'')])],
      trace = []\<rparr>"


section \<open>Properties of the partitioner\<close>

subsection \<open>The loop\<close>

lemma chunkLoop_concat:
  "chunkLoop B vs cs cur = (cs', cur') \<Longrightarrow> concat cs' @ cur' = concat cs @ cur @ vs"
  by (induction vs arbitrary: cs cur) (auto split: if_splits)

lemma fitsWith_chunkBytes: "fitsWith B arr item = (chunkBytes (arr @ [item]) \<le> B)"
  by (simp add: fitsWith_def chunkBytes_def fileText_def)

lemma chunkLoop_accepted:
  "chunkLoop B vs cs cur = (cs', cur') \<Longrightarrow> \<forall>c\<in>set cs. accepted B c \<Longrightarrow> cur = [] \<or> accepted B cur
   \<Longrightarrow> (\<forall>c\<in>set cs'. accepted B c) \<and> (cur' = [] \<or> accepted B cur')"
proof (induction vs arbitrary: cs cur)
  case Nil
  then show ?case by simp
next
  case (Cons v vs)
  have single: "accepted B [v]" by (simp add: accepted_def)
  show ?case
  proof (cases "cur = []")
    case True
    with Cons.prems have "chunkLoop B vs cs [v] = (cs', cur')" by simp
    with single show ?thesis using Cons.IH Cons.prems(2) by blast
  next
    case False
    note ne = this
    show ?thesis
    proof (cases "fitsWith B cur v")
      case True
      with ne Cons.prems have "chunkLoop B vs cs (cur @ [v]) = (cs', cur')" by simp
      moreover from True have "accepted B (cur @ [v])"
        by (simp add: accepted_def fitsWith_chunkBytes)
      ultimately show ?thesis using Cons.IH Cons.prems(2) by blast
    next
      case False
      with ne Cons.prems have "chunkLoop B vs (cs @ [cur]) [v] = (cs', cur')" by simp
      moreover from ne Cons.prems(2,3) have "\<forall>c\<in>set (cs @ [cur]). accepted B c" by auto
      ultimately show ?thesis using Cons.IH single by blast
    qed
  qed
qed

lemma chunkArrays_accepted:
  assumes "c \<in> set (chunkArrays B R)"
  shows "accepted B c"
proof -
  obtain cs cur where l: "chunkLoop B R [] [] = (cs, cur)" by (cases "chunkLoop B R [] []")
  from chunkLoop_accepted[OF l] have "(\<forall>c\<in>set cs. accepted B c) \<and> (cur = [] \<or> accepted B cur)"
    by simp
  with assms l show ?thesis by (auto simp: chunkArrays_def split: if_splits)
qed

lemma concat_chunkArrays: "concat (chunkArrays B R) = R"
  using chunkLoop_concat[of B R "[]" "[]"]
  by (auto simp: chunkArrays_def split: prod.splits)

subsection \<open>Sizes of the encoding\<close>

lemma length_join:
  "length (join sep xs) = sum_list (map length xs) + length sep * (length xs - 1)"
  by (induction sep xs rule: join.induct) auto

lemma length_join_mono:
  assumes "length sep \<le> length sep'" and "\<forall>x\<in>set xs. length (f x) \<le> length (g x)"
  shows "length (join sep (map f xs)) \<le> length (join sep' (map g xs))"
proof -
  have "sum_list (map length (map f xs)) \<le> sum_list (map length (map g xs))"
    using assms(2) by (induction xs) (auto intro: add_mono)
  moreover have "length sep * (length xs - 1) \<le> length sep' * (length xs - 1)"
    using assms(1) by (rule mult_le_mono1)
  ultimately show ?thesis by (simp add: length_join add_mono)
qed

lemma length_join_member: "x \<in> set xs \<Longrightarrow> length x \<le> length (join sep xs)"
  by (induction sep xs rule: join.induct) auto

text \<open>A deeper indentation never shortens the text of a value.\<close>

lemma Serialize_indent_mono:
  "length i1 \<le> length i2 \<Longrightarrow>
   length (SerializeJSONProperty i1 v) \<le> length (SerializeJSONProperty i2 v)"
proof (induction v arbitrary: i1 i2)
  case (JArr vs)
  have "length (join ('','' @ nl @ (i1 @ gap)) (map (SerializeJSONProperty (i1 @ gap)) vs))
        \<le> length (join ('','' @ nl @ (i2 @ gap)) (map (SerializeJSONProperty (i2 @ gap)) vs))"
    using JArr by (intro length_join_mono) auto
  with JArr.prems show ?case by auto
next
  case (JObj ps)
  have "length (join ('','' @ nl @ (i1 @ gap))
           (map (\<lambda>p. QuoteJSONString (fst p) @ '': '' @ SerializeJSONProperty (i1 @ gap) (snd p)) ps))
        \<le> length (join ('','' @ nl @ (i2 @ gap))
           (map (\<lambda>p. QuoteJSONString (fst p) @ '': '' @ SerializeJSONProperty (i2 @ gap) (snd p)) ps))"
  proof (intro length_join_mono ballI)
    show "length ('','' @ nl @ i1 @ gap) \<le> length ('','' @ nl @ i2 @ gap)"
      using JObj.prems by simp
  next
    fix p assume "p \<in> set ps"
    moreover have "snd p \<in> Basic_BNFs.snds p" by (cases p) simp
    moreover have "length (i1 @ gap) \<le> length (i2 @ gap)" using JObj.prems by simp
    ultimately have "length (SerializeJSONProperty (i1 @ gap) (snd p))
        \<le> length (SerializeJSONProperty (i2 @ gap) (snd p))"
      by (rule JObj.IH)
    then show "length (QuoteJSONString (fst p) @ '': '' @ SerializeJSONProperty (i1 @ gap) (snd p))
       \<le> length (QuoteJSONString (fst p) @ '': '' @ SerializeJSONProperty (i2 @ gap) (snd p))"
      by simp
  qed
  with JObj.prems show ?case by auto
qed simp_all

text \<open>A chunk is at least as long as any of its records printed alone.\<close>

lemma recordBytes_le_chunkBytes:
  assumes "r \<in> set c"
  shows "recordBytes r \<le> chunkBytes c"
proof -
  from assms have ne: "c \<noteq> []" by auto
  have "length (SerializeJSONProperty [] r) \<le> length (SerializeJSONProperty gap r)"
    by (rule Serialize_indent_mono) simp
  also have "\<dots> \<le> length (join ('','' @ nl @ gap) (map (SerializeJSONProperty gap) c))"
    using assms by (intro length_join_member) simp
  finally show ?thesis using ne
    by (simp add: recordBytes_def chunkBytes_def fileText_def JSON_stringify_def byteLength_def)
qed

subsection \<open>Positions\<close>

lemma chunkStart_Suc:
  "j < length cs \<Longrightarrow> chunkStart cs (Suc j) = chunkStart cs j + length (cs ! j)"
  by (simp add: chunkStart_def take_Suc_conv_app_nth)

lemma chunkStart_mono: "j \<le> k \<Longrightarrow> k \<le> length cs \<Longrightarrow> chunkStart cs j \<le> chunkStart cs k"
proof (induction k)
  case 0
  then show ?case by simp
next
  case (Suc k)
  show ?case
  proof (cases "j = Suc k")
    case True
    then show ?thesis by simp
  next
    case False
    with Suc have "chunkStart cs j \<le> chunkStart cs k" by simp
    also have "\<dots> \<le> chunkStart cs (Suc k)" using Suc.prems by (simp add: chunkStart_Suc)
    finally show ?thesis .
  qed
qed

lemma inChunk_unique:
  assumes "inChunk cs j i" and "inChunk cs k i"
  shows "j = k"
proof (rule ccontr)
  assume ne: "j \<noteq> k"
  have aux: "False" if a: "inChunk cs a i" and b: "inChunk cs b i" and lt: "a < b" for a b
  proof -
    from a have "i < chunkStart cs (Suc a)" by (simp add: inChunk_def chunkStart_Suc)
    also from lt b have "chunkStart cs (Suc a) \<le> chunkStart cs b"
      by (intro chunkStart_mono) (simp_all add: inChunk_def)
    also from b have "\<dots> \<le> i" by (simp add: inChunk_def)
    finally show False by simp
  qed
  from ne have "j < k \<or> k < j" by arith
  with aux assms show False by blast
qed

lemma inChunk_exists:
  "i < length (concat cs) \<Longrightarrow>
   \<exists>j. inChunk cs j i \<and> concat cs ! i = cs ! j ! (i - chunkStart cs j)"
proof (induction cs arbitrary: i)
  case Nil
  then show ?case by simp
next
  case (Cons c cs)
  show ?case
  proof (cases "i < length c")
    case True
    then have "inChunk (c # cs) 0 i" by (simp add: inChunk_def chunkStart_def)
    moreover from True have "concat (c # cs) ! i = (c # cs) ! 0 ! (i - chunkStart (c # cs) 0)"
      by (simp add: nth_append chunkStart_def)
    ultimately show ?thesis by blast
  next
    case False
    with Cons.prems have "i - length c < length (concat cs)" by simp
    from Cons.IH[OF this] obtain j where j: "inChunk cs j (i - length c)"
      and v: "concat cs ! (i - length c) = cs ! j ! (i - length c - chunkStart cs j)" by blast
    from j False have "inChunk (c # cs) (Suc j) i"
      by (auto simp: inChunk_def chunkStart_def)
    moreover from v False
    have "concat (c # cs) ! i = (c # cs) ! Suc j ! (i - chunkStart (c # cs) (Suc j))"
      by (simp add: nth_append chunkStart_def)
    ultimately show ?thesis by blast
  qed
qed

lemma count_single_chunks:
  assumes "\<forall>c\<in>set cs. P c \<longrightarrow> (\<exists>r. c = [r] \<and> Q r)"
  shows "length (filter P cs) \<le> length (filter Q (concat cs))"
  using assms
proof (induction cs)
  case Nil
  then show ?case by simp
next
  case (Cons c cs)
  then have ih: "length (filter P cs) \<le> length (filter Q (concat cs))" by simp
  show ?case
  proof (cases "P c")
    case True
    with Cons.prems obtain r where "c = [r]" "Q r" by auto
    with True ih show ?thesis by simp
  next
    case False
    with ih show ?thesis by simp
  qed
qed

lemma over_budget_single:
  assumes "c \<in> set (chunkArrays B R)" and "B < chunkBytes c"
  shows "\<exists>r. c = [r] \<and> B < chunkBytes [r]"
proof -
  from chunkArrays_accepted[OF assms(1)] assms(2) have "length c = 1"
    by (simp add: accepted_def)
  then obtain r where "c = [r]" by (cases c) auto
  with assms(2) show ?thesis by simp
qed

subsection \<open>The claims about the partition\<close>

text \<open>
  Claim C1. For every record sequence \<open>R\<close> and every budget \<open>B\<close>, the chunks produced by
  the partitioner, concatenated in order, are \<open>R\<close> again: the same records in the same
  order, none repeated and none lost.
\<close>

theorem chunks_concat_is_input: "concat (chunkArrays B R) = R"
proof -
  obtain sealed current where l: "chunkLoop B R [] [] = (sealed, current)"
    by (cases "chunkLoop B R [] []")
  from chunkLoop_concat[OF l] have all: "concat sealed @ current = R" by simp
  show ?thesis
  proof (cases "current = []")
    case True
    with l all show ?thesis by (simp add: chunkArrays_def)
  next
    case False
    with l all show ?thesis by (simp add: chunkArrays_def)
  qed
qed

text \<open>
  Claim C2, as stated, fails: the chunk holding the single record \<open>{"id": "a"}\<close> is
  written as 26 bytes although the budget is 20 and the record printed alone has 16
  bytes, so a one-record chunk exceeds the budget while the record's own size does not.
\<close>

theorem small_record_single_chunk_over_budget:
  "chunkArrays 20 [JObj [(''id'', JStr ''a'')]] = [[JObj [(''id'', JStr ''a'')]]]
   \<and> \<not> chunkBytes [JObj [(''id'', JStr ''a'')]] \<le> 20
   \<and> \<not> 20 < recordBytes (JObj [(''id'', JStr ''a'')])"
  by code_simp

text \<open>
  Claim C2, amended. Every chunk produced by the partitioner is not empty and has a
  serialized byte length of at most \<open>B\<close>, with the single exception of a chunk that
  holds exactly one record: such a chunk is never measured, and it exceeds \<open>B\<close> when the
  record serialized as a one-record chunk (brackets and indentation included) does.
\<close>

theorem chunk_within_budget_or_single:
  "c \<in> set (chunkArrays B R) \<Longrightarrow>
   c \<noteq> [] \<and> (chunkBytes c \<le> B \<or> (\<exists>r. c = [r] \<and> B < chunkBytes [r]))"
proof -
  assume c: "c \<in> set (chunkArrays B R)"
  from chunkArrays_accepted[OF c] have ne: "c \<noteq> []" by (simp add: accepted_def)
  show ?thesis
  proof (cases "chunkBytes c \<le> B")
    case True
    with ne show ?thesis by simp
  next
    case False
    then have "B < chunkBytes c" by simp
    from over_budget_single[OF c this] ne show ?thesis by simp
  qed
qed

theorem chunk_within_budget_or_single_witness:
  "[JObj [(''id'', JStr ''a'')], JObj [(''id'', JStr ''b'')]]
      \<in> set (chunkArrays 50 [JObj [(''id'', JStr ''a'')], JObj [(''id'', JStr ''b'')], JObj [(''id'', JStr ''c'')]])
   \<and> chunkBytes [JObj [(''id'', JStr ''a'')], JObj [(''id'', JStr ''b'')]] \<le> 50"
proof -
  have m: "[JObj [(''id'', JStr ''a'')], JObj [(''id'', JStr ''b'')]]
      \<in> set (chunkArrays 50 [JObj [(''id'', JStr ''a'')], JObj [(''id'', JStr ''b'')], JObj [(''id'', JStr ''c'')]])"
    by code_simp
  have "\<not> (\<exists>r. [JObj [(''id'', JStr ''a'')], JObj [(''id'', JStr ''b'')]] = [r] \<and> 50 < chunkBytes [r])"
    by simp
  with chunk_within_budget_or_single[OF m] m show ?thesis by blast
qed

text \<open>
  Claim C3, as stated, fails: with the budget 10 and two records of 16 bytes each, the
  partition has two chunks, and both exceed the budget.
\<close>

theorem two_chunks_over_budget:
  "chunkArrays 10 [JObj [(''id'', JStr ''a'')], JObj [(''id'', JStr ''b'')]] ! 0 = [JObj [(''id'', JStr ''a'')]]
   \<and> chunkArrays 10 [JObj [(''id'', JStr ''a'')], JObj [(''id'', JStr ''b'')]] ! 1 = [JObj [(''id'', JStr ''b'')]]
   \<and> 10 < chunkBytes (chunkArrays 10 [JObj [(''id'', JStr ''a'')], JObj [(''id'', JStr ''b'')]] ! 0)
   \<and> 10 < chunkBytes (chunkArrays 10 [JObj [(''id'', JStr ''a'')], JObj [(''id'', JStr ''b'')]] ! 1)"
  by code_simp

text \<open>
  Claim C3, amended. Every chunk whose serialized byte length exceeds \<open>B\<close> is a
  single-record chunk, all other chunks have at most \<open>B\<close> bytes, and there are at most
  as many chunks over the budget as the input has records that exceed \<open>B\<close> when
  serialized as a one-record chunk (so several, not at most one).
\<close>

theorem over_budget_chunks_are_single:
  "(\<forall>c\<in>set (chunkArrays B R). B < chunkBytes c \<longrightarrow> length c = 1)
   \<and> length (filter (\<lambda>c. B < chunkBytes c) (chunkArrays B R))
       \<le> length (filter (\<lambda>r. B < chunkBytes [r]) R)"
proof
  show "\<forall>c\<in>set (chunkArrays B R). B < chunkBytes c \<longrightarrow> length c = 1"
    using over_budget_single[of _ B R] by fastforce
next
  have "length (filter (\<lambda>c. B < chunkBytes c) (chunkArrays B R))
        \<le> length (filter (\<lambda>r. B < chunkBytes [r]) (concat (chunkArrays B R)))"
    by (rule count_single_chunks) (use over_budget_single[of _ B R] in blast)
  then show "length (filter (\<lambda>c. B < chunkBytes c) (chunkArrays B R))
        \<le> length (filter (\<lambda>r. B < chunkBytes [r]) R)"
    by (simp add: concat_chunkArrays)
qed

theorem over_budget_chunks_are_single_witness:
  "[JObj [(''id'', JStr ''b'')]] \<in> set (chunkArrays 10 [JObj [(''id'', JStr ''a'')], JObj [(''id'', JStr ''b'')]])
   \<and> 10 < chunkBytes [JObj [(''id'', JStr ''b'')]]
   \<and> length [JObj [(''id'', JStr ''b'')]] = 1
   \<and> length (filter (\<lambda>c. 10 < chunkBytes c) (chunkArrays 10 [JObj [(''id'', JStr ''a'')], JObj [(''id'', JStr ''b'')]])) \<le> 2"
proof -
  have m: "[JObj [(''id'', JStr ''b'')]] \<in> set (chunkArrays 10 [JObj [(''id'', JStr ''a'')], JObj [(''id'', JStr ''b'')]])"
    by code_simp
  have o: "10 < chunkBytes [JObj [(''id'', JStr ''b'')]]"
    by code_simp
  have n: "length (filter (\<lambda>r. 10 < chunkBytes [r]) [JObj [(''id'', JStr ''a'')], JObj [(''id'', JStr ''b'')]]) = 2"
    by code_simp
  from over_budget_chunks_are_single[of 10 "[JObj [(''id'', JStr ''a'')], JObj [(''id'', JStr ''b'')]]"] m o n
  show ?thesis by auto
qed

text \<open>
  Claim C4. When the record at position \<open>i\<close> of the input has a standalone serialized
  size above the budget \<open>B\<close>, it is still accepted: its position lies in exactly one
  chunk of the output, and that chunk consists of this record alone, so the record is
  neither split over chunks nor dropped.
\<close>

theorem oversized_record_in_one_chunk:
  assumes "i < length R" and "B < recordBytes (R ! i)"
  shows "\<exists>j. inChunk (chunkArrays B R) j i \<and> chunkArrays B R ! j = [R ! i]
             \<and> (\<forall>k. inChunk (chunkArrays B R) k i \<longrightarrow> k = j)"
proof -
  let ?cs = "chunkArrays B R"
  from assms(1) have "i < length (concat ?cs)" by (simp add: concat_chunkArrays)
  from inChunk_exists[OF this] obtain j where j: "inChunk ?cs j i"
    and v: "R ! i = ?cs ! j ! (i - chunkStart ?cs j)" by (auto simp: concat_chunkArrays)
  from j have mem: "?cs ! j \<in> set ?cs" and idx: "i - chunkStart ?cs j < length (?cs ! j)"
    by (auto simp: inChunk_def)
  from idx v have "R ! i \<in> set (?cs ! j)" by (metis nth_mem)
  then have "recordBytes (R ! i) \<le> chunkBytes (?cs ! j)" by (rule recordBytes_le_chunkBytes)
  with assms(2) have "B < chunkBytes (?cs ! j)" by simp
  from over_budget_single[OF mem this] obtain r where r: "?cs ! j = [r]" by blast
  with idx v have "?cs ! j = [R ! i]" by simp
  moreover have "\<forall>k. inChunk ?cs k i \<longrightarrow> k = j" using j inChunk_unique by blast
  ultimately show ?thesis using j by blast
qed

theorem oversized_record_in_one_chunk_witness:
  "(1::nat) < length [JObj [(''id'', JStr ''a'')], JObj [(''id'', JStr ''b'')]]
   \<and> 10 < recordBytes ([JObj [(''id'', JStr ''a'')], JObj [(''id'', JStr ''b'')]] ! 1)
   \<and> (\<exists>j. inChunk (chunkArrays 10 [JObj [(''id'', JStr ''a'')], JObj [(''id'', JStr ''b'')]]) j 1
          \<and> chunkArrays 10 [JObj [(''id'', JStr ''a'')], JObj [(''id'', JStr ''b'')]] ! j = [JObj [(''id'', JStr ''b'')]])"
proof -
  have h1: "(1::nat) < length [JObj [(''id'', JStr ''a'')], JObj [(''id'', JStr ''b'')]]" by simp
  have h2: "10 < recordBytes ([JObj [(''id'', JStr ''a'')], JObj [(''id'', JStr ''b'')]] ! 1)"
    by code_simp
  from oversized_record_in_one_chunk[OF h1 h2] h1 h2 show ?thesis by auto
qed

section \<open>Properties of the script\<close>

subsection \<open>The reader\<close>

lemma root_console_warn [simp]: "root (console_warn m w) = root w"
  by (simp add: console_warn_def)

lemma trace_console_warn [simp]: "trace (console_warn m w) = trace w @ [Warned m]"
  by (simp add: console_warn_def)

lemma readLoop_eq:
  "readLoop E dir fs out w =
     (w\<lparr>trace := trace w @ map (\<lambda>f. Warned (skipMessage dir f))
                              (filter (\<lambda>f. parsedFile E (root w) dir f = None) fs)\<rparr>,
      out @ List.map_filter (keptValue E (root w) dir) fs)"
proof (induction fs arbitrary: out w)
  case Nil
  then show ?case by simp
next
  case (Cons f fs)
  show ?case
  proof (cases "parsedFile E (root w) dir f")
    case None
    then have "readLoop E dir (f # fs) out w = readLoop E dir fs out (console_warn (skipMessage dir f) w)"
      by (auto simp: parsedFile_def split: sum.splits option.splits)
    with None show ?thesis
      by (simp add: Cons.IH keptValue_def console_warn_def)
  next
    case (Some v)
    then obtain raw where raw: "readFile (root w) dir f = Inr raw" "JSON_parse E raw = Some v"
      by (auto simp: parsedFile_def split: sum.splits)
    show ?thesis
    proof (cases "truthy v \<and> typeof v = ''object''")
      case True
      with raw have "readLoop E dir (f # fs) out w = readLoop E dir fs (out @ [v]) w" by simp
      with Some True show ?thesis by (simp add: Cons.IH keptValue_def)
    next
      case False
      with raw have "readLoop E dir (f # fs) out w = readLoop E dir fs out w" by auto
      with Some False show ?thesis by (auto simp add: Cons.IH keptValue_def)
    qed
  qed
qed

lemma inputFiles_not_dir: "stat es dir \<noteq> Inr True \<Longrightarrow> inputFiles E es dir = []"
  by (auto simp: inputFiles_def readdir_def dirEntries_def stat_def sortBy_def split: option.splits node.splits)

lemma readJsonDir_eq:
  "readJsonDir E dir w =
     (w\<lparr>trace := trace w @ map (\<lambda>f. Warned (skipMessage dir f))
                              (filter (\<lambda>f. parsedFile E (root w) dir f = None) (inputFiles E (root w) dir))\<rparr>,
      List.map_filter (keptValue E (root w) dir) (inputFiles E (root w) dir))"
proof (cases "stat (root w) dir = Inr True")
  case True
  then show ?thesis by (simp add: readJsonDir_def readLoop_eq)
next
  case False
  then have "readJsonDir E dir w = (w, [])"
    by (auto simp: readJsonDir_def split: sum.splits)
  with inputFiles_not_dir[OF False] show ?thesis by simp
qed

lemma set_insertBy: "set (insertBy cmp x ys) = insert x (set ys)"
  by (induction ys) auto

lemma set_sortBy: "set (sortBy cmp xs) = set xs"
  by (induction xs) (auto simp: sortBy_def set_insertBy)

subsection \<open>The cleaner\<close>

lemma map_of_dirEntries: "map_of r d = Some (Dir ds) \<Longrightarrow> dirEntries r d = ds"
  by (simp add: dirEntries_def)

lemma rm_root:
  assumes "map_of (root w) d = Some (Dir ds)" and "distinct (map fst ds)"
  shows "root (fst (rm d f w)) = AList.update d (Dir (filter (survives [f]) ds)) (root w)"
proof (cases "map_of ds f")
  case None
  then have "f \<notin> fst ` set ds" by (simp add: map_of_eq_None_iff)
  then have "filter (survives [f]) ds = ds"
    by (intro filter_True) (auto simp: survives_def)
  with None assms(1) show ?thesis
    by (simp add: rm_def map_of_dirEntries AList.update_triv)
next
  case (Some n)
  have uniq: "n' = n" if "(f, n') \<in> set ds" for n'
    using that assms(2) Some by (metis map_of_is_SomeI option.inject)
  show ?thesis
  proof (cases "canRemove n")
    case True
    then obtain wr t where n: "n = File True wr t" by (cases n) (auto simp: canRemove_def)
    have "filter (survives [f]) ds = AList.delete f ds"
      unfolding AList.delete_eq using uniq True
      by (intro filter_cong) (auto simp: survives_def)
    with Some n assms(1) show ?thesis
      by (simp add: rm_def map_of_dirEntries)
  next
    case False
    then have "filter (survives [f]) ds = ds"
      using uniq by (intro filter_True) (auto simp: survives_def)
    with False Some assms(1) show ?thesis
      by (cases n) (auto simp: rm_def map_of_dirEntries AList.update_triv canRemove_def)
  qed
qed

lemma rmAll_root:
  assumes "map_of (root w) d = Some (Dir ds)" and "distinct (map fst ds)"
  shows "root (rmAll d fs w) = AList.update d (Dir (filter (survives fs) ds)) (root w)"
  using assms
proof (induction fs arbitrary: w ds)
  case Nil
  then show ?case by (simp add: survives_def AList.update_triv)
next
  case (Cons f fs)
  let ?w1 = "fst (rm d f w)"
  let ?ds1 = "filter (survives [f]) ds"
  have r1: "root ?w1 = AList.update d (Dir ?ds1) (root w)"
    using Cons.prems by (rule rm_root)
  then have m1: "map_of (root ?w1) d = Some (Dir ?ds1)" by (simp add: AList.update_conv')
  have d1: "distinct (map fst ?ds1)" using Cons.prems(2) by (simp add: distinct_map_filter)
  have "rmAll d (f # fs) w = rmAll d fs ?w1"
    by (cases "rm d f w") (auto split: sum.splits)
  also have "root (rmAll d fs ?w1) = AList.update d (Dir (filter (survives fs) ?ds1)) (root ?w1)"
    using m1 d1 by (rule Cons.IH)
  also have "filter (survives fs) ?ds1 = filter (survives (f # fs)) ds"
    by (auto simp: survives_def intro: filter_cong)
  finally show ?case by (simp add: r1)
qed

lemma stat_Dir: "map_of r d = Some (Dir ds) \<Longrightarrow> stat r d = Inr True"
  by (simp add: stat_def)

lemma cleanAllFiles_root:
  assumes "map_of (root w) d = Some (Dir ds)" and "distinct (map fst ds)"
  shows "root (cleanAllFiles d w)
         = AList.update d (Dir (filter (\<lambda>e. \<not> (matchesAll (fst e) \<and> canRemove (snd e))) ds)) (root w)"
proof -
  have "filter (survives (filter matchesAll (map fst ds))) ds
        = filter (\<lambda>e. \<not> (matchesAll (fst e) \<and> canRemove (snd e))) ds"
    by (intro filter_cong) (auto simp: survives_def)
  with rmAll_root[OF assms, of "filter matchesAll (map fst ds)"] assms(1) show ?thesis
    by (simp add: cleanAllFiles_def stat_Dir readdir_def map_of_dirEntries)
qed

subsection \<open>The writes\<close>

lemma writeFile_cases:
  "(\<exists>e. writeFile p s w = (w, Inl e))
   \<or> (\<exists>r'. writeFile p s w = (w\<lparr>root := r', trace := trace w @ [Wrote p s]\<rparr>, Inr ()))"
  by (auto simp: writeFile_def split: list.splits sum.splits option.splits node.splits)

lemma writeJson_Inr:
  "writeJson p v w = (w', Inr u) \<Longrightarrow> trace w' = trace w @ [Wrote p (fileText v)]"
  using writeFile_cases[of p "fileText v" w] by (auto simp: writeJson_def fileText_def)

lemma writeJson_Inl: "writeJson p v w = (w', Inl e) \<Longrightarrow> w' = w"
  using writeFile_cases[of p "fileText v" w] by (auto simp: writeJson_def fileText_def)

lemma writeChunks_Inr:
  "writeChunks dir cs i acc w = (w', Inr names) \<Longrightarrow>
   names = acc @ map (\<lambda>(k, c). chunkName k) (enumerate i cs)
   \<and> trace w' = trace w @ map (\<lambda>(k, c). Wrote [dir, chunkName k] (fileText (JArr c))) (enumerate i cs)"
proof (induction cs arbitrary: i acc w)
  case Nil
  then show ?case by simp
next
  case (Cons c cs)
  obtain w1 r1 where s1: "writeJson [dir, chunkName i] (JArr c) w = (w1, r1)"
    by (cases "writeJson [dir, chunkName i] (JArr c) w")
  show ?case
  proof (cases r1)
    case (Inl e)
    with s1 Cons.prems show ?thesis by simp
  next
    case (Inr u)
    with s1 Cons.prems have rest: "writeChunks dir cs (i + 1) (acc @ [chunkName i]) w1 = (w', Inr names)"
      by simp
    from s1 Inr have t1: "trace w1 = trace w @ [Wrote [dir, chunkName i] (fileText (JArr c))]"
      by (auto dest: writeJson_Inr)
    from Cons.IH[OF rest] t1 show ?thesis
      by simp
  qed
qed

lemma chunkName_0: "chunkName 0 = ''all_1.json''"
  by (simp add: chunkName_def decimal.simps decDigit_def)

lemma andThen_Inr:
  "andThen m f w = (w', Inr b) \<Longrightarrow> \<exists>w1 a. m w = (w1, Inr a) \<and> f a w1 = (w', Inr b)"
  by (auto simp: andThen_def split: prod.splits sum.splits)

lemma writeChunkedAll_Inr:
  assumes "stat (root w) dir = Inr True" and "R \<noteq> []"
      and "writeChunkedAll E dir R w = (w', Inr names)"
  shows "names = map chunkName [0..<length (chunkArrays (MAX_CHUNK_BYTES E) R)]
     \<and> trace w' = trace w
         @ map (\<lambda>(k, c). Wrote [dir, chunkName k] (fileText (JArr c))) (enumerate 0 (chunkArrays (MAX_CHUNK_BYTES E) R))
         @ [Wrote [dir, ''all.json'']
              (fileText (if length (chunkArrays (MAX_CHUNK_BYTES E) R) = 1
                         then JArr (chunkArrays (MAX_CHUNK_BYTES E) R ! 0)
                         else manifest E names R))]"
proof -
  let ?cs = "chunkArrays (MAX_CHUNK_BYTES E) R"
  let ?last = "\<lambda>chunkFiles. if length ?cs = 1 then writeJson [dir, ''all.json''] (JArr (?cs ! 0))
                    else writeJson [dir, ''all.json''] (manifest E chunkFiles R)"
  from assms have "andThen (writeChunks dir ?cs 0 [])
      (\<lambda>chunkFiles. andThen (?last chunkFiles) (\<lambda>u w2. (w2, Inr chunkFiles))) w = (w', Inr names)"
    by (simp add: writeChunkedAll_def)
  from andThen_Inr[OF this] obtain w1 files where
    a: "writeChunks dir ?cs 0 [] w = (w1, Inr files)" and
    b: "andThen (?last files) (\<lambda>u w2. (w2, Inr files)) w1 = (w', Inr names)" by blast
  from andThen_Inr[OF b] obtain w2 u where
    c: "?last files w1 = (w2, Inr u)" and d: "(w2, Inr files) = (w', Inr names)" by blast
  from d have eq: "w2 = w'" "files = names" by simp_all
  have "map (\<lambda>(k, c). chunkName k) (enumerate 0 ?cs) = map chunkName [0..<length ?cs]"
    by (rule nth_equalityI) (simp_all add: nth_enumerate_eq)
  with writeChunks_Inr[OF a] eq have
    n: "names = map chunkName [0..<length ?cs]" and
    t1: "trace w1 = trace w @ map (\<lambda>(k, c). Wrote [dir, chunkName k] (fileText (JArr c))) (enumerate 0 ?cs)"
    by simp_all
  from c eq have "trace w' = trace w1 @ [Wrote [dir, ''all.json'']
       (fileText (if length ?cs = 1 then JArr (?cs ! 0) else manifest E names R))]"
    by (auto split: if_splits dest: writeJson_Inr)
  with n t1 show ?thesis by simp
qed

subsection \<open>The events of a run\<close>

lemma extends_refl [simp]: "extends P w w"
  by (simp add: extends_def)

lemma extends_trans: "extends P w w1 \<Longrightarrow> extends P w1 w2 \<Longrightarrow> extends P w w2"
  by (auto simp: extends_def)

lemma extends_mono: "extends P w w' \<Longrightarrow> (\<And>e. P e \<Longrightarrow> Q e) \<Longrightarrow> extends Q w w'"
  by (auto simp: extends_def list_all_iff)

lemma extends_andThen:
  assumes "extends P w (fst (m w))" and "\<And>a w1. extends P w1 (fst (f a w1))"
  shows "extends P w (fst (andThen m f w))"
proof (cases "m w")
  case (Pair w1 r)
  show ?thesis
  proof (cases r)
    case (Inl e)
    with Pair assms(1) show ?thesis by (simp add: andThen_def)
  next
    case (Inr a)
    with Pair have "fst (andThen m f w) = fst (f a w1)" by (simp add: andThen_def)
    with assms(1) assms(2)[of w1 a] Pair show ?thesis by (auto intro: extends_trans)
  qed
qed

lemma extends_writeJson: "extends (\<lambda>e. \<exists>s. e = Wrote p s) w (fst (writeJson p v w))"
  using writeFile_cases[of p "fileText v" w]
  by (auto simp: writeJson_def fileText_def extends_def)

lemma writeChunks_Cons:
  "writeChunks dir (c # cs) i acc =
     andThen (writeJson [dir, chunkName i] (JArr c)) (\<lambda>u. writeChunks dir cs (i + 1) (acc @ [chunkName i]))"
  by (rule ext) (simp add: andThen_def)

lemma extends_writeChunks: "extends (wroteIn dir) w (fst (writeChunks dir cs i acc w))"
proof (induction cs arbitrary: i acc w)
  case Nil
  then show ?case by simp
next
  case (Cons c cs)
  have "extends (wroteIn dir) w (fst (writeJson [dir, chunkName i] (JArr c) w))"
    by (rule extends_mono[OF extends_writeJson]) (auto simp: wroteIn_def inDir_def)
  then show ?case unfolding writeChunks_Cons
    by (rule extends_andThen) (rule Cons.IH)
qed

lemma extends_writeChunkedAll: "extends (wroteIn dir) w (fst (writeChunkedAll E dir vals w))"
proof -
  have last: "extends (wroteIn dir) w1 (fst (writeJson [dir, ''all.json''] v w1))" for v w1
    by (rule extends_mono[OF extends_writeJson]) (auto simp: wroteIn_def inDir_def)
  show ?thesis
    unfolding writeChunkedAll_def
    by (auto split: sum.splits intro!: extends_andThen extends_writeChunks last)
qed

lemma extends_rm: "extends (removedIn dir) w (fst (rm dir f w))"
  by (auto simp: rm_def extends_def removedIn_def inDir_def split: option.splits node.splits)

lemma extends_rmAll: "extends (removedIn dir) w (rmAll dir fs w)"
proof (induction fs arbitrary: w)
  case Nil
  then show ?case by simp
next
  case (Cons f fs)
  have "rmAll dir (f # fs) w = rmAll dir fs (fst (rm dir f w))"
    by (cases "rm dir f w") (auto split: sum.splits)
  with extends_rm[of dir w f] Cons.IH[of "fst (rm dir f w)"] show ?case
    by (auto intro: extends_trans)
qed

lemma extends_cleanAllFiles: "extends (removedIn dir) w (cleanAllFiles dir w)"
  by (auto simp: cleanAllFiles_def extends_rmAll split: sum.splits)

lemma extends_after_clean:
  "extends (wroteIn dir) (cleanAllFiles dir w)
     (fst (andThen (writeChunkedAll E dir vals) (\<lambda>chunkFiles w'. (w', Inr ())) (cleanAllFiles dir w)))"
  by (rule extends_andThen) (simp_all add: extends_writeChunkedAll)

text \<open>In the block of one directory every removal comes before every write.\<close>

lemma perDirectory_order:
  "\<exists>rs ws. trace (fst (perDirectory E dir vals w)) = trace w @ rs @ ws
      \<and> list_all (removedIn dir) rs \<and> list_all (wroteIn dir) ws"
proof (cases "vals = []")
  case True
  then show ?thesis by (simp add: perDirectory_def)
next
  case False
  from extends_cleanAllFiles[of dir w] obtain rs where
    rs: "trace (cleanAllFiles dir w) = trace w @ rs" "list_all (removedIn dir) rs"
    by (auto simp: extends_def)
  from extends_after_clean[of dir w E vals] obtain ws where
    ws: "trace (fst (andThen (writeChunkedAll E dir vals) (\<lambda>chunkFiles w'. (w', Inr ())) (cleanAllFiles dir w)))
           = trace (cleanAllFiles dir w) @ ws" "list_all (wroteIn dir) ws"
    by (auto simp: extends_def)
  from False rs ws show ?thesis by (auto simp: perDirectory_def)
qed

lemma extends_perDirectory: "extends (dirEvent dir) w (fst (perDirectory E dir vals w))"
proof -
  from perDirectory_order[of E dir vals w] obtain rs ws where
    t: "trace (fst (perDirectory E dir vals w)) = trace w @ rs @ ws"
    and r: "list_all (removedIn dir) rs" and ws: "list_all (wroteIn dir) ws" by blast
  from r ws have "list_all (dirEvent dir) (rs @ ws)"
    by (auto simp: list_all_iff dirEvent_def)
  with t show ?thesis by (auto simp: extends_def)
qed

lemma extends_legacyFile: "extends (\<lambda>e. \<exists>s. e = Wrote [name] s) w (fst (legacyFile name vals v w))"
  by (simp add: legacyFile_def extends_writeJson)

lemma perDirectory_Nil: "perDirectory E dir [] = (\<lambda>w. (w, Inr ()))"
  by (rule ext) (simp add: perDirectory_def)

lemma legacyFile_Nil: "legacyFile name [] v = (\<lambda>w. (w, Inr ()))"
  by (rule ext) (simp add: legacyFile_def)

lemma readJsonDir_root: "root (fst (readJsonDir E dir w)) = root w"
  by (simp add: readJsonDir_eq)

lemma readJsonDir_snd: "root w' = root w \<Longrightarrow> snd (readJsonDir E dir w') = snd (readJsonDir E dir w)"
  by (simp add: readJsonDir_eq)

lemma extends_readJsonDir: "extends (\<lambda>e. \<exists>m. e = Warned m) w (fst (readJsonDir E dir w))"
  by (auto simp: readJsonDir_eq extends_def list_all_iff)

lemma extends_step:
  assumes "vals \<noteq> [] \<Longrightarrow> (\<And>e. Q e \<Longrightarrow> P e)" and "\<And>w. vals = [] \<Longrightarrow> m w = (w, Inr ())"
      and "\<And>w. extends Q w (fst (m w))"
  shows "extends P w (fst (m w))"
proof (cases "vals = []")
  case True
  with assms(2) show ?thesis by simp
next
  case False
  with assms(1,3) show ?thesis by (blast intro: extends_mono)
qed

lemma aggregate_extends:
  assumes i: "snd (readJsonDir E ''items'' w) \<noteq> [] \<Longrightarrow>
                (\<forall>e. dirEvent ''items'' e \<longrightarrow> P e) \<and> (\<forall>s. P (Wrote [''items.json''] s))"
      and q: "snd (readJsonDir E ''quests'' w) \<noteq> [] \<Longrightarrow>
                (\<forall>e. dirEvent ''quests'' e \<longrightarrow> P e) \<and> (\<forall>s. P (Wrote [''quests.json''] s))"
      and h: "snd (readJsonDir E ''hideout'' w) \<noteq> [] \<Longrightarrow>
                (\<forall>e. dirEvent ''hideout'' e \<longrightarrow> P e) \<and> (\<forall>s. P (Wrote [''hideoutModules.json''] s))"
      and c: "\<And>m. P (Warned m)" "\<And>m. P (Logged m)"
  shows "extends P w (fst (aggregate E w))"
proof -
  obtain w1 items where r1: "readJsonDir E ''items'' w = (w1, items)" by (cases "readJsonDir E ''items'' w")
  obtain w2 quests where r2: "readJsonDir E ''quests'' w1 = (w2, quests)" by (cases "readJsonDir E ''quests'' w1")
  obtain w3 hideout where r3: "readJsonDir E ''hideout'' w2 = (w3, hideout)" by (cases "readJsonDir E ''hideout'' w2")
  have roots: "root w1 = root w" "root w2 = root w" "root w3 = root w"
    using r1 r2 r3 readJsonDir_root[of E "''items''" w] readJsonDir_root[of E "''quests''" w1]
      readJsonDir_root[of E "''hideout''" w2] by simp_all
  have vals: "items = snd (readJsonDir E ''items'' w)" "quests = snd (readJsonDir E ''quests'' w)"
       "hideout = snd (readJsonDir E ''hideout'' w)"
    using r1 r2 r3 roots readJsonDir_snd[of w1 w E "''quests''"] readJsonDir_snd[of w2 w E "''hideout''"]
    by simp_all
  have warn: "extends P v (fst (readJsonDir E d v))" for d v
    by (rule extends_mono[OF extends_readJsonDir]) (auto simp: c)
  have e3: "extends P w w3"
    using warn[of w "''items''"] warn[of w1 "''quests''"] warn[of w2 "''hideout''"] r1 r2 r3
    by (auto intro: extends_trans)
  have s1: "extends P v (fst (perDirectory E ''items'' items v))" for v
    by (rule extends_step[where vals = items and Q = "dirEvent ''items''"])
       (use i vals in \<open>auto simp: perDirectory_Nil extends_perDirectory\<close>)
  have s2: "extends P v (fst (perDirectory E ''quests'' quests v))" for v
    by (rule extends_step[where vals = quests and Q = "dirEvent ''quests''"])
       (use q vals in \<open>auto simp: perDirectory_Nil extends_perDirectory\<close>)
  have s3: "extends P v (fst (perDirectory E ''hideout'' hideout v))" for v
    by (rule extends_step[where vals = hideout and Q = "dirEvent ''hideout''"])
       (use h vals in \<open>auto simp: perDirectory_Nil extends_perDirectory\<close>)
  have s4: "extends P v (fst (legacyFile ''items.json'' items x v))" for v x
    by (rule extends_step[where vals = items and Q = "\<lambda>e. \<exists>s. e = Wrote [''items.json''] s"])
       (use i vals in \<open>auto simp: legacyFile_Nil extends_legacyFile\<close>)
  have s5: "extends P v (fst (legacyFile ''quests.json'' quests x v))" for v x
    by (rule extends_step[where vals = quests and Q = "\<lambda>e. \<exists>s. e = Wrote [''quests.json''] s"])
       (use q vals in \<open>auto simp: legacyFile_Nil extends_legacyFile\<close>)
  have s6: "extends P v (fst (legacyFile ''hideoutModules.json'' hideout x v))" for v x
    by (rule extends_step[where vals = hideout and Q = "\<lambda>e. \<exists>s. e = Wrote [''hideoutModules.json''] s"])
       (use h vals in \<open>auto simp: legacyFile_Nil extends_legacyFile\<close>)
  have s7: "extends P v (fst (console_log m v, Inr ()))" for v m
    by (simp add: extends_def console_log_def c)
  have "extends P w3 (fst (aggregate E w))"
    unfolding aggregate_def r1 r2 r3 prod.case
    by (intro extends_andThen s1 s2 s3 s4 s5 s6 s7)
  with e3 show ?thesis by (rule extends_trans)
qed

subsection \<open>Generated names\<close>

lemma decDigit_isDigit: "n < 10 \<Longrightarrow> isDigit (decDigit n)"
proof -
  assume "n < 10"
  then have "n \<in> {0,1,2,3,4,5,6,7,8,9}" by auto
  then show ?thesis by (auto simp: decDigit_def isDigit_def)
qed

lemma decimal_digits: "decimal n \<noteq> [] \<and> list_all isDigit (decimal n)"
proof (induction n rule: decimal.induct)
  case (1 n)
  show ?case
  proof (cases "n < 10")
    case True
    then show ?thesis by (subst (1 2) decimal.simps) (simp add: decDigit_isDigit)
  next
    case False
    with 1 have "list_all isDigit (decimal (n div 10))" by simp
    moreover have "isDigit (decDigit (n mod 10))" by (rule decDigit_isDigit) simp
    ultimately show ?thesis using False by (subst (1 2) decimal.simps) simp
  qed
qed

lemma lowerChar_digit: "isDigit c \<Longrightarrow> lowerChar c = c"
  by (simp add: isDigit_def lowerChar_def)

lemma toLowerCase_digits: "list_all isDigit ds \<Longrightarrow> toLowerCase ds = ds"
  by (induction ds) (simp_all add: toLowerCase_def lowerChar_digit)

lemma matchesAll_numbered:
  assumes "ds \<noteq> []" and "list_all isDigit ds"
  shows "matchesAll (''all_'' @ ds @ ''.json'')"
proof -
  have low: "toLowerCase (''all_'' @ ds @ ''.json'') = ''all_'' @ ds @ ''.json''"
    using toLowerCase_digits[OF assms(2)] by (simp add: toLowerCase_def lowerChar_def)
  have "endsWith (''all_'' @ ds @ ''.json'') ''.json''" by (simp add: endsWith_def)
  moreover have "drop 4 (take (length (''all_'' @ ds @ ''.json'') - 5) (''all_'' @ ds @ ''.json'')) = ds"
    by simp
  ultimately show ?thesis using assms unfolding matchesAll_def Let_def low by simp
qed

lemma matchesAll_chunkName: "matchesAll (chunkName i)"
  unfolding chunkName_def using decimal_digits[of "i + 1"] by (intro matchesAll_numbered) simp_all

lemma matchesAll_all: "matchesAll ''all.json''"
  by (simp add: matchesAll_def toLowerCase_def lowerChar_def)

subsection \<open>Completion of a run\<close>

lemma set_update_subset: "set (AList.update k v al) \<subseteq> insert (k, v) (set al)"
  by (induction al) auto

lemma putFile_ok:
  assumes "list_all okEntry ds" and "matchesAll f"
  shows "\<exists>ds'. putFile ds f s = Inr ds' \<and> list_all okEntry ds'"
proof (cases "map_of ds f")
  case None
  have "list_all okEntry (AList.update f (File True True s) ds)"
    using assms(1) set_update_subset[of f "File True True s" ds]
    by (auto simp: list_all_iff okEntry_def isWritable_def)
  with None show ?thesis by (simp add: putFile_def)
next
  case (Some n)
  then have "(f, n) \<in> set ds" by (rule map_of_SomeD)
  with assms have "isWritable n" by (auto simp: list_all_iff okEntry_def)
  then obtain r t where n: "n = File r True t" by (cases n) (auto simp: isWritable_def)
  have "list_all okEntry (AList.update f (File r True s) ds)"
    using assms(1) set_update_subset[of f "File r True s" ds]
    by (auto simp: list_all_iff okEntry_def isWritable_def)
  with Some n show ?thesis by (simp add: putFile_def)
qed

lemma dirStep_trans:
  assumes "dirStep d w w1" and "dirStep d w1 w2"
  shows "dirStep d w w2"
  using assms by (auto simp: dirStep_def)

lemma dirStep_Dir: "dirStep d w w' \<Longrightarrow> \<exists>ds'. map_of (root w') d = Some (Dir ds') \<and> list_all okEntry ds'"
  by (auto simp: dirStep_def AList.update_conv')

lemma dirStep_refl:
  "map_of (root w) d = Some (Dir ds) \<Longrightarrow> list_all okEntry ds \<Longrightarrow> dirStep d w w"
  by (auto simp: dirStep_def AList.update_triv)

lemma writeJson_dir_ok:
  assumes "map_of (root w) d = Some (Dir ds)" and "list_all okEntry ds" and "matchesAll f"
  shows "\<exists>w'. writeJson [d, f] v w = (w', Inr ()) \<and> dirStep d w w'"
proof -
  from putFile_ok[OF assms(2,3)] obtain ds' where
    "putFile ds f (JSON_stringify v @ nl) = Inr ds'" "list_all okEntry ds'" by blast
  with assms(1) show ?thesis
    by (auto simp: writeJson_def writeFile_def dirStep_def)
qed

lemma writeChunks_ok:
  assumes "map_of (root w) d = Some (Dir ds)" and "list_all okEntry ds"
  shows "\<exists>w' names. writeChunks d cs i acc w = (w', Inr names) \<and> dirStep d w w'"
  using assms
proof (induction cs arbitrary: i acc w ds)
  case Nil
  then show ?case by (auto intro: dirStep_refl)
next
  case (Cons c cs)
  from writeJson_dir_ok[OF Cons.prems matchesAll_chunkName] obtain w1 where
    w1: "writeJson [d, chunkName i] (JArr c) w = (w1, Inr ())" "dirStep d w w1" by blast
  from dirStep_Dir[OF w1(2)] obtain ds1 where
    "map_of (root w1) d = Some (Dir ds1)" "list_all okEntry ds1" by blast
  from Cons.IH[OF this] obtain w' names where
    "writeChunks d cs (i + 1) (acc @ [chunkName i]) w1 = (w', Inr names)" "dirStep d w1 w'" by blast
  with w1 show ?case by (auto intro: dirStep_trans)
qed

lemma writeChunkedAll_ok:
  assumes "map_of (root w) d = Some (Dir ds)" and "list_all okEntry ds"
  shows "\<exists>w' names. writeChunkedAll E d vals w = (w', Inr names) \<and> dirStep d w w'"
proof (cases "vals = []")
  case True
  from assms have "dirStep d w w" by (rule dirStep_refl)
  with True show ?thesis by (simp add: writeChunkedAll_def)
next
  case False
  let ?cs = "chunkArrays (MAX_CHUNK_BYTES E) vals"
  let ?last = "\<lambda>chunkFiles. if length ?cs = 1 then writeJson [d, ''all.json''] (JArr (?cs ! 0))
                    else writeJson [d, ''all.json''] (manifest E chunkFiles vals)"
  from writeChunks_ok[OF assms] obtain w1 names where
    a: "writeChunks d ?cs 0 [] w = (w1, Inr names)" and s1: "dirStep d w w1" by blast
  from dirStep_Dir[OF s1] obtain ds1 where
    d1: "map_of (root w1) d = Some (Dir ds1)" "list_all okEntry ds1" by blast
  have wj: "\<exists>w2. writeJson [d, ''all.json''] v w1 = (w2, Inr ()) \<and> dirStep d w1 w2" for v
    using d1 matchesAll_all by (rule writeJson_dir_ok)
  have "\<exists>w2. ?last names w1 = (w2, Inr ()) \<and> dirStep d w1 w2"
  proof (cases "length ?cs = 1")
    case True
    with wj[of "JArr (?cs ! 0)"] show ?thesis by simp
  next
    case False
    with wj[of "manifest E names vals"] show ?thesis by simp
  qed
  then obtain w2 where b: "?last names w1 = (w2, Inr ())" and s2: "dirStep d w1 w2" by blast
  have "writeChunkedAll E d vals w =
          andThen (writeChunks d ?cs 0 [])
            (\<lambda>chunkFiles. andThen (?last chunkFiles) (\<lambda>u w2. (w2, Inr chunkFiles))) w"
    using False assms(1) by (simp add: writeChunkedAll_def stat_Dir)
  also have "\<dots> = (w2, Inr names)"
    using a b by (simp add: andThen_def)
  finally have "writeChunkedAll E d vals w = (w2, Inr names)" .
  moreover from s1 s2 have "dirStep d w w2" by (rule dirStep_trans)
  ultimately show ?thesis by blast
qed

lemma rm_shape:
  assumes "map_of (root w) d = Some (Dir ds)" and "list_all okEntry ds"
  shows "dirStep d w (fst (rm d f w))"
proof -
  have "list_all okEntry (AList.delete f ds)"
    using assms(2) by (auto simp: list_all_iff AList.delete_eq)
  with assms show ?thesis
    by (auto simp: rm_def map_of_dirEntries dirStep_def AList.update_triv
        split: option.splits node.splits)
qed

lemma rmAll_shape:
  assumes "map_of (root w) d = Some (Dir ds)" and "list_all okEntry ds"
  shows "dirStep d w (rmAll d fs w)"
  using assms
proof (induction fs arbitrary: w ds)
  case Nil
  then show ?case by (auto intro: dirStep_refl)
next
  case (Cons f fs)
  have eq: "rmAll d (f # fs) w = rmAll d fs (fst (rm d f w))"
    by (cases "rm d f w") (auto split: sum.splits)
  have s1: "dirStep d w (fst (rm d f w))" using Cons.prems by (rule rm_shape)
  from dirStep_Dir[OF s1] obtain ds1 where
    "map_of (root (fst (rm d f w))) d = Some (Dir ds1)" "list_all okEntry ds1" by blast
  from Cons.IH[OF this] s1 eq show ?case by (auto intro: dirStep_trans)
qed

lemma cleanAllFiles_shape:
  assumes "map_of (root w) d = Some (Dir ds)" and "list_all okEntry ds"
  shows "dirStep d w (cleanAllFiles d w)"
  using assms rmAll_shape[OF assms] by (simp add: cleanAllFiles_def stat_Dir)

lemma cleanAllFiles_not_dir: "stat (root w) d \<noteq> Inr True \<Longrightarrow> cleanAllFiles d w = w"
  by (auto simp: cleanAllFiles_def split: sum.splits)

lemma writeChunkedAll_not_dir: "stat (root w) d \<noteq> Inr True \<Longrightarrow> writeChunkedAll E d vals w = (w, Inr [])"
  by (auto simp: writeChunkedAll_def split: sum.splits)

lemma stat_True_Dir: "stat r d = Inr True \<Longrightarrow> \<exists>ds. map_of r d = Some (Dir ds)"
  by (auto simp: stat_def split: option.splits node.splits)

lemma targetsWritable_dirStep:
  assumes "targetsWritable (root w)" and "dirStep d w w'" and "d \<in> {''items'', ''quests'', ''hideout''}"
  shows "targetsWritable (root w')"
proof -
  from assms(2) obtain ds' where ok: "list_all okEntry ds'"
    and r: "root w' = AList.update d (Dir ds') (root w)" by (auto simp: dirStep_def)
  from assms(1,3) ok show ?thesis
    unfolding r targetsWritable_def dirOk_def fileOk_def
    by (auto simp: AList.update_conv')
qed

lemma perDirectory_ok:
  assumes "targetsWritable (root w)" and "d \<in> {''items'', ''quests'', ''hideout''}"
  shows "\<exists>w'. perDirectory E d vals w = (w', Inr ()) \<and> targetsWritable (root w')"
proof (cases "vals = []")
  case True
  with assms show ?thesis by (simp add: perDirectory_def)
next
  case False
  show ?thesis
  proof (cases "stat (root w) d = Inr True")
    case True
    then obtain ds where ds: "map_of (root w) d = Some (Dir ds)" by (auto dest: stat_True_Dir)
    with assms have ok: "list_all okEntry ds" by (auto simp: targetsWritable_def dirOk_def)
    have c: "dirStep d w (cleanAllFiles d w)" using ds ok by (rule cleanAllFiles_shape)
    from dirStep_Dir[OF c] obtain ds1 where
      "map_of (root (cleanAllFiles d w)) d = Some (Dir ds1)" "list_all okEntry ds1" by blast
    from writeChunkedAll_ok[OF this] obtain w' names where
      wr: "writeChunkedAll E d vals (cleanAllFiles d w) = (w', Inr names)" "dirStep d (cleanAllFiles d w) w'"
      by blast
    from c wr(2) have "dirStep d w w'" by (rule dirStep_trans)
    with assms have "targetsWritable (root w')" by (blast intro: targetsWritable_dirStep)
    with wr(1) False show ?thesis by (simp add: perDirectory_def andThen_def)
  next
    case False
    note nd = this
    with assms \<open>vals \<noteq> []\<close> show ?thesis
      by (simp add: perDirectory_def andThen_def cleanAllFiles_not_dir writeChunkedAll_not_dir)
  qed
qed

lemma legacyFile_ok:
  assumes "targetsWritable (root w)" and "name \<in> {''items.json'', ''quests.json'', ''hideoutModules.json''}"
  shows "\<exists>w'. legacyFile name vals v w = (w', Inr ()) \<and> targetsWritable (root w')"
proof (cases "vals = []")
  case True
  with assms show ?thesis by (simp add: legacyFile_def)
next
  case False
  from assms have fo: "fileOk (root w) name" by (auto simp: targetsWritable_def)
  have "\<exists>n. putFile (root w) name (JSON_stringify v @ nl) = Inr (AList.update name n (root w)) \<and> isWritable n"
  proof (cases "map_of (root w) name")
    case None
    then show ?thesis by (auto simp: putFile_def isWritable_def)
  next
    case (Some n)
    with fo have "isWritable n" by (simp add: fileOk_def)
    then obtain r t where "n = File r True t" by (cases n) (auto simp: isWritable_def)
    with Some show ?thesis by (auto simp: putFile_def isWritable_def)
  qed
  then obtain n where p: "putFile (root w) name (JSON_stringify v @ nl) = Inr (AList.update name n (root w))"
    and n: "isWritable n" by blast
  have "targetsWritable (AList.update name n (root w))"
    using assms n unfolding targetsWritable_def dirOk_def fileOk_def
    by (auto simp: AList.update_conv' isWritable_def split: node.splits)
  with p False show ?thesis
    by (simp add: legacyFile_def writeJson_def writeFile_def)
qed

lemma okStep_andThen:
  assumes "okStep m" and "\<And>u. okStep (f u)"
  shows "okStep (andThen m f)"
  unfolding okStep_def
proof (intro allI impI)
  fix w :: world assume "targetsWritable (root w)"
  with assms(1) obtain w1 where m: "m w = (w1, Inr ())" and t: "targetsWritable (root w1)"
    unfolding okStep_def by blast
  from assms(2)[of "()"] t obtain w' where "f () w1 = (w', Inr ())" "targetsWritable (root w')"
    unfolding okStep_def by blast
  with m show "\<exists>w'. andThen m f w = (w', Inr ()) \<and> targetsWritable (root w')"
    by (simp add: andThen_def)
qed

lemma okStep_perDirectory:
  "d \<in> {''items'', ''quests'', ''hideout''} \<Longrightarrow> okStep (perDirectory E d vals)"
  unfolding okStep_def using perDirectory_ok by blast

lemma okStep_legacyFile:
  "name \<in> {''items.json'', ''quests.json'', ''hideoutModules.json''} \<Longrightarrow> okStep (legacyFile name vals v)"
  unfolding okStep_def using legacyFile_ok by blast

lemma okStep_done: "okStep (\<lambda>w. (console_log m w, Inr ()))"
  by (simp add: okStep_def console_log_def)

lemma aggregate_ok:
  assumes "targetsWritable (root w)"
  shows "\<exists>w'. aggregate E w = (w', Inr ())"
proof -
  obtain w1 items where r1: "readJsonDir E ''items'' w = (w1, items)" by (cases "readJsonDir E ''items'' w")
  obtain w2 quests where r2: "readJsonDir E ''quests'' w1 = (w2, quests)" by (cases "readJsonDir E ''quests'' w1")
  obtain w3 hideout where r3: "readJsonDir E ''hideout'' w2 = (w3, hideout)" by (cases "readJsonDir E ''hideout'' w2")
  have "root w3 = root w"
    using r1 r2 r3 readJsonDir_root[of E "''items''" w] readJsonDir_root[of E "''quests''" w1]
      readJsonDir_root[of E "''hideout''" w2] by simp
  with assms have t3: "targetsWritable (root w3)" by simp
  have p1: "okStep (perDirectory E ''items'' items)" by (rule okStep_perDirectory) simp
  have p2: "okStep (perDirectory E ''quests'' quests)" by (rule okStep_perDirectory) simp
  have p3: "okStep (perDirectory E ''hideout'' hideout)" by (rule okStep_perDirectory) simp
  have l1: "okStep (legacyFile ''items.json'' items v)" for v by (rule okStep_legacyFile) simp
  have l2: "okStep (legacyFile ''quests.json'' quests v)" for v by (rule okStep_legacyFile) simp
  have l3: "okStep (legacyFile ''hideoutModules.json'' hideout v)" for v by (rule okStep_legacyFile) simp
  have "okStep (andThen (perDirectory E ''items'' items) (\<lambda>u.
        andThen (perDirectory E ''quests'' quests) (\<lambda>u.
        andThen (perDirectory E ''hideout'' hideout) (\<lambda>u.
        andThen (legacyFile ''items.json'' items (legacyItems E items)) (\<lambda>u.
        andThen (legacyFile ''quests.json'' quests (JArr quests)) (\<lambda>u.
        andThen (legacyFile ''hideoutModules.json'' hideout (JArr hideout)) (\<lambda>u w.
          (console_log ''[aggregate] Done.'' w, Inr ()))))))))"
    by (intro okStep_andThen p1 p2 p3 l1 l2 l3 okStep_done)
  with t3 show ?thesis
    unfolding aggregate_def r1 r2 r3 prod.case okStep_def by blast
qed

subsection \<open>The cleaner inside a run\<close>

lemma rm_trace:
  assumes "map_of (root w) d = Some (Dir ds)"
  shows "trace (fst (rm d f w)) = trace w @ (if removable ds f then [Removed [d, f]] else [])"
    and "removable ds f \<Longrightarrow> map_of (root (fst (rm d f w))) d = Some (Dir (AList.delete f ds))"
    and "\<not> removable ds f \<Longrightarrow> fst (rm d f w) = w"
  using assms
  by (auto simp: rm_def map_of_dirEntries removable_def canRemove_def AList.update_conv'
      split: option.splits node.splits)

lemma removable_delete: "g \<noteq> f \<Longrightarrow> removable (AList.delete f ds) g = removable ds g"
  by (simp add: removable_def)

lemma rmAll_trace:
  assumes "map_of (root w) d = Some (Dir ds)" and "distinct fs"
  shows "trace (rmAll d fs w) = trace w @ map (\<lambda>f. Removed [d, f]) (filter (removable ds) fs)"
  using assms
proof (induction fs arbitrary: w ds)
  case Nil
  then show ?case by simp
next
  case (Cons f fs)
  have eq: "rmAll d (f # fs) w = rmAll d fs (fst (rm d f w))"
    by (cases "rm d f w") (auto split: sum.splits)
  from Cons.prems(2) have dfs: "distinct fs" and nf: "f \<notin> set fs" by simp_all
  show ?case
  proof (cases "removable ds f")
    case True
    let ?w1 = "fst (rm d f w)"
    from rm_trace(2)[OF Cons.prems(1) True] have m1: "map_of (root ?w1) d = Some (Dir (AList.delete f ds))" .
    from rm_trace(1)[OF Cons.prems(1), of f] True have t1: "trace ?w1 = trace w @ [Removed [d, f]]" by simp
    have "removable (AList.delete f ds) g = removable ds g" if "g \<in> set fs" for g
    proof -
      from that nf have "g \<noteq> f" by auto
      then show ?thesis by (rule removable_delete)
    qed
    then have "filter (removable (AList.delete f ds)) fs = filter (removable ds) fs"
      by (intro filter_cong) simp_all
    with Cons.IH[OF m1 dfs] t1 True eq show ?thesis by simp
  next
    case False
    from rm_trace(3)[OF Cons.prems(1) False] have "fst (rm d f w) = w" .
    with Cons.IH[OF Cons.prems(1) dfs] False eq show ?thesis by simp
  qed
qed

lemma removable_targets:
  assumes "distinct (map fst ds)"
  shows "map (\<lambda>f. Removed [d, f]) (filter (removable ds) (filter matchesAll (map fst ds))) = removals d ds"
proof -
  have r: "removable ds (fst e) = canRemove (snd e)" if "e \<in> set ds" for e
  proof -
    from that have "(fst e, snd e) \<in> set ds" by simp
    with assms have "map_of ds (fst e) = Some (snd e)" by (rule map_of_is_SomeI)
    then show ?thesis by (simp add: removable_def)
  qed
  have "filter (removable ds) (filter matchesAll (map fst ds))
        = map fst (filter (\<lambda>e. matchesAll (fst e) \<and> removable ds (fst e)) ds)"
    by (simp add: filter_map comp_def conj_commute)
  also have "filter (\<lambda>e. matchesAll (fst e) \<and> removable ds (fst e)) ds
        = filter (\<lambda>e. matchesAll (fst e) \<and> canRemove (snd e)) ds"
    using r by (intro filter_cong) auto
  finally show ?thesis by (simp add: removals_def comp_def)
qed

lemma cleanAllFiles_trace:
  assumes "map_of (root w) d = Some (Dir ds)" and "distinct (map fst ds)"
  shows "trace (cleanAllFiles d w) = trace w @ removals d ds"
proof -
  have "distinct (filter matchesAll (map fst ds))" using assms(2) by simp
  from rmAll_trace[OF assms(1) this] removable_targets[OF assms(2), of d] assms(1)
  show ?thesis by (simp add: cleanAllFiles_def stat_Dir readdir_def map_of_dirEntries)
qed

lemma perDirectory_unfold:
  "vals \<noteq> [] \<Longrightarrow>
   perDirectory E dir vals w =
     (case writeChunkedAll E dir vals (cleanAllFiles dir w) of
        (w', Inl e) \<Rightarrow> (w', Inl e)
      | (w', Inr names) \<Rightarrow> (w', Inr ()))"
  by (simp add: perDirectory_def andThen_def)

lemma writeChunkedAll_trace:
  assumes "stat (root w) dir = Inr True" and "vals \<noteq> []"
      and "writeChunkedAll E dir vals w = (w', Inr names)"
  shows "trace w' = trace w @ chunkWrites E dir vals"
  using writeChunkedAll_Inr[OF assms] by (simp add: chunkWrites_def)

lemma perDirectory_trace:
  assumes "map_of (root w) dir = Some (Dir ds)" and "distinct (map fst ds)" and "vals \<noteq> []"
      and "snd (perDirectory E dir vals w) = Inr ()"
  shows "trace (fst (perDirectory E dir vals w)) = trace w @ removals dir ds @ chunkWrites E dir vals"
proof -
  let ?c = "cleanAllFiles dir w"
  obtain w' r where wr: "writeChunkedAll E dir vals ?c = (w', r)" by (cases "writeChunkedAll E dir vals ?c")
  with assms(3,4) obtain names where r: "r = Inr names"
    by (cases r) (auto simp: perDirectory_unfold)
  have "map_of (root ?c) dir = Some (Dir (filter (\<lambda>e. \<not> (matchesAll (fst e) \<and> canRemove (snd e))) ds))"
    by (simp add: cleanAllFiles_root[OF assms(1,2)] AList.update_conv')
  then have "stat (root ?c) dir = Inr True" by (rule stat_Dir)
  from writeChunkedAll_trace[OF this assms(3) wr[unfolded r]]
  have "trace w' = trace ?c @ chunkWrites E dir vals" .
  with wr r assms(3) cleanAllFiles_trace[OF assms(1,2)] show ?thesis
    by (simp add: perDirectory_unfold)
qed

lemma keeps_refl [simp]: "keeps dir w w"
  by (simp add: keeps_def)

lemma keeps_trans: "keeps dir w w1 \<Longrightarrow> keeps dir w1 w2 \<Longrightarrow> keeps dir w w2"
  by (simp add: keeps_def)

lemma keeps_dirStep: "dirStep d w w' \<Longrightarrow> d \<noteq> dir \<Longrightarrow> keeps dir w w'"
  by (auto simp: dirStep_def keeps_def AList.update_conv')

lemma foreignStep_andThen:
  assumes "foreignStep dir m" and "\<And>u. foreignStep dir (f u)"
  shows "foreignStep dir (andThen m f)"
  unfolding foreignStep_def
proof (intro allI impI)
  fix w :: world assume "targetsWritable (root w)"
  with assms(1) obtain w1 where m: "m w = (w1, Inr ())" and t: "targetsWritable (root w1)"
    and k: "keeps dir w w1" and e: "extends (\<lambda>e. \<not> dirEvent dir e) w w1"
    unfolding foreignStep_def by blast
  from assms(2)[of "()"] t obtain w' where f: "f () w1 = (w', Inr ())" and t': "targetsWritable (root w')"
    and k': "keeps dir w1 w'" and e': "extends (\<lambda>e. \<not> dirEvent dir e) w1 w'"
    unfolding foreignStep_def by blast
  from m f have "andThen m f w = (w', Inr ())" by (simp add: andThen_def)
  moreover from k k' have "keeps dir w w'" by (rule keeps_trans)
  moreover from e e' have "extends (\<lambda>e. \<not> dirEvent dir e) w w'" by (rule extends_trans)
  ultimately show "\<exists>w'. andThen m f w = (w', Inr ()) \<and> targetsWritable (root w') \<and> keeps dir w w'
              \<and> extends (\<lambda>e. \<not> dirEvent dir e) w w'"
    using t' by blast
qed

lemma runStep_after:
  assumes "foreignStep dir m" and "\<And>u. runStep dir ds X (f u)"
  shows "runStep dir ds X (andThen m f)"
  unfolding runStep_def
proof (intro allI impI)
  fix w :: world assume a: "targetsWritable (root w) \<and> map_of (root w) dir = Some (Dir ds)"
  with assms(1) obtain w1 where m: "m w = (w1, Inr ())" and t: "targetsWritable (root w1)"
    and k: "keeps dir w w1" and e: "extends (\<lambda>e. \<not> dirEvent dir e) w w1"
    unfolding foreignStep_def by blast
  from e obtain p0 where p0: "trace w1 = trace w @ p0" "list_all (\<lambda>e. \<not> dirEvent dir e) p0"
    by (auto simp: extends_def)
  from k a have "map_of (root w1) dir = Some (Dir ds)" by (simp add: keeps_def)
  with assms(2)[of "()"] t obtain w' pre post where
    f: "f () w1 = (w', Inr ())" and tr: "trace w' = trace w1 @ pre @ X @ post"
    and pp: "list_all (\<lambda>e. \<not> dirEvent dir e) pre" "list_all (\<lambda>e. \<not> dirEvent dir e) post"
    unfolding runStep_def by blast
  from m f have "andThen m f w = (w', Inr ())" by (simp add: andThen_def)
  moreover from tr p0 have "trace w' = trace w @ (p0 @ pre) @ X @ post" by simp
  moreover from p0 pp have "list_all (\<lambda>e. \<not> dirEvent dir e) (p0 @ pre)" by simp
  ultimately show "\<exists>w' pre post. andThen m f w = (w', Inr ()) \<and> trace w' = trace w @ pre @ X @ post
              \<and> list_all (\<lambda>e. \<not> dirEvent dir e) pre \<and> list_all (\<lambda>e. \<not> dirEvent dir e) post"
    using pp(2) by blast
qed

lemma runStep_own:
  assumes "ownStep dir ds X m" and "\<And>u. foreignStep dir (f u)"
  shows "runStep dir ds X (andThen m f)"
  unfolding runStep_def
proof (intro allI impI)
  fix w :: world assume a: "targetsWritable (root w) \<and> map_of (root w) dir = Some (Dir ds)"
  with assms(1) obtain w1 where m: "m w = (w1, Inr ())" and t: "targetsWritable (root w1)"
    and tr: "trace w1 = trace w @ X"
    unfolding ownStep_def by blast
  from assms(2)[of "()"] t obtain w' where f: "f () w1 = (w', Inr ())"
    and e': "extends (\<lambda>e. \<not> dirEvent dir e) w1 w'"
    unfolding foreignStep_def by blast
  from e' obtain post where post: "trace w' = trace w1 @ post" "list_all (\<lambda>e. \<not> dirEvent dir e) post"
    by (auto simp: extends_def)
  from m f have "andThen m f w = (w', Inr ())" by (simp add: andThen_def)
  moreover from tr post have "trace w' = trace w @ [] @ X @ post" by simp
  moreover have "list_all (\<lambda>e. \<not> dirEvent dir e) []" by simp
  ultimately show "\<exists>w' pre post. andThen m f w = (w', Inr ()) \<and> trace w' = trace w @ pre @ X @ post
              \<and> list_all (\<lambda>e. \<not> dirEvent dir e) pre \<and> list_all (\<lambda>e. \<not> dirEvent dir e) post"
    using post(2) by blast
qed

lemma dirEvent_other: "dirEvent d e \<Longrightarrow> d \<noteq> dir \<Longrightarrow> \<not> dirEvent dir e"
  by (auto simp: dirEvent_def wroteIn_def removedIn_def inDir_def split: event.splits list.splits)

lemma perDirectory_keeps:
  assumes "targetsWritable (root w)" and "d \<in> {''items'', ''quests'', ''hideout''}" and "d \<noteq> dir"
  shows "keeps dir w (fst (perDirectory E d vals w))"
proof (cases "vals \<noteq> [] \<and> stat (root w) d = Inr True")
  case True
  then obtain ds where ds: "map_of (root w) d = Some (Dir ds)" by (auto dest: stat_True_Dir)
  with assms have ok: "list_all okEntry ds" by (auto simp: targetsWritable_def dirOk_def)
  have c: "dirStep d w (cleanAllFiles d w)" using ds ok by (rule cleanAllFiles_shape)
  from dirStep_Dir[OF c] obtain ds1 where
    "map_of (root (cleanAllFiles d w)) d = Some (Dir ds1)" "list_all okEntry ds1" by blast
  from writeChunkedAll_ok[OF this] obtain w' names where
    wr: "writeChunkedAll E d vals (cleanAllFiles d w) = (w', Inr names)" "dirStep d (cleanAllFiles d w) w'"
    by blast
  from c wr(2) have "dirStep d w w'" by (rule dirStep_trans)
  then have "keeps dir w w'" using assms(3) by (rule keeps_dirStep)
  with wr(1) True show ?thesis by (simp add: perDirectory_def andThen_def)
next
  case False
  then show ?thesis
    by (auto simp: perDirectory_def andThen_def cleanAllFiles_not_dir writeChunkedAll_not_dir)
qed

lemma foreignStep_perDirectory:
  assumes "d \<in> {''items'', ''quests'', ''hideout''}" and "d \<noteq> dir"
  shows "foreignStep dir (perDirectory E d vals)"
  unfolding foreignStep_def
proof (intro allI impI)
  fix w :: world assume t: "targetsWritable (root w)"
  from perDirectory_ok[OF t assms(1), of E vals] obtain w' where
    p: "perDirectory E d vals w = (w', Inr ())" and t': "targetsWritable (root w')" by blast
  from perDirectory_keeps[OF t assms, of E vals] p have k: "keeps dir w w'" by simp
  have "extends (\<lambda>e. \<not> dirEvent dir e) w (fst (perDirectory E d vals w))"
    by (rule extends_mono[OF extends_perDirectory]) (use assms(2) in \<open>auto dest: dirEvent_other\<close>)
  with p t' k show "\<exists>w'. perDirectory E d vals w = (w', Inr ()) \<and> targetsWritable (root w')
      \<and> keeps dir w w' \<and> extends (\<lambda>e. \<not> dirEvent dir e) w w'" by simp
qed

lemma writeFile_root_keeps: "name \<noteq> dir \<Longrightarrow> keeps dir w (fst (writeFile [name] s w))"
  by (auto simp: writeFile_def keeps_def putFile_def AList.update_conv'
      split: option.splits node.splits sum.splits)

lemma foreignStep_legacyFile:
  assumes "name \<in> {''items.json'', ''quests.json'', ''hideoutModules.json''}"
      and "dir \<in> {''items'', ''quests'', ''hideout''}"
  shows "foreignStep dir (legacyFile name vals v)"
  unfolding foreignStep_def
proof (intro allI impI)
  fix w :: world assume t: "targetsWritable (root w)"
  from legacyFile_ok[OF t assms(1), of vals v] obtain w' where
    p: "legacyFile name vals v w = (w', Inr ())" and t': "targetsWritable (root w')" by blast
  from assms have ne: "name \<noteq> dir" by auto
  have "keeps dir w (fst (legacyFile name vals v w))"
    using writeFile_root_keeps[OF ne] by (simp add: legacyFile_def writeJson_def)
  moreover have "extends (\<lambda>e. \<not> dirEvent dir e) w (fst (legacyFile name vals v w))"
    by (rule extends_mono[OF extends_legacyFile])
       (auto simp: dirEvent_def wroteIn_def removedIn_def inDir_def)
  ultimately show "\<exists>w'. legacyFile name vals v w = (w', Inr ()) \<and> targetsWritable (root w')
      \<and> keeps dir w w' \<and> extends (\<lambda>e. \<not> dirEvent dir e) w w'"
    using p t' by simp
qed

lemma foreignStep_done: "foreignStep dir (\<lambda>w. (console_log m w, Inr ()))"
  by (simp add: foreignStep_def console_log_def keeps_def extends_def dirEvent_def wroteIn_def removedIn_def)

lemma ownStep_perDirectory:
  assumes "dir \<in> {''items'', ''quests'', ''hideout''}" and "distinct (map fst ds)" and "vals \<noteq> []"
  shows "ownStep dir ds (removals dir ds @ chunkWrites E dir vals) (perDirectory E dir vals)"
  unfolding ownStep_def
proof (intro allI impI)
  fix w :: world assume a: "targetsWritable (root w) \<and> map_of (root w) dir = Some (Dir ds)"
  from perDirectory_ok[OF _ assms(1), of w E vals] a obtain w' where
    p: "perDirectory E dir vals w = (w', Inr ())" and t': "targetsWritable (root w')" by blast
  from perDirectory_trace[of w dir ds vals E] a assms(2,3) p
  have "trace w' = trace w @ removals dir ds @ chunkWrites E dir vals" by simp
  with p t' show "\<exists>w'. perDirectory E dir vals w = (w', Inr ()) \<and> targetsWritable (root w')
      \<and> trace w' = trace w @ removals dir ds @ chunkWrites E dir vals" by simp
qed

lemma aggregate_run:
  assumes tw: "targetsWritable (root w)"
      and dir: "dir \<in> {''items'', ''quests'', ''hideout''}"
      and ds: "map_of (root w) dir = Some (Dir ds)" "distinct (map fst ds)"
      and ne: "snd (readJsonDir E dir w) \<noteq> []"
  shows "\<exists>w' pre post. aggregate E w = (w', Inr ())
      \<and> trace w' = trace w @ pre @ (removals dir ds @ chunkWrites E dir (snd (readJsonDir E dir w))) @ post
      \<and> list_all (\<lambda>e. \<not> dirEvent dir e) pre \<and> list_all (\<lambda>e. \<not> dirEvent dir e) post"
proof -
  let ?X = "removals dir ds @ chunkWrites E dir (snd (readJsonDir E dir w))"
  obtain w1 items where r1: "readJsonDir E ''items'' w = (w1, items)" by (cases "readJsonDir E ''items'' w")
  obtain w2 quests where r2: "readJsonDir E ''quests'' w1 = (w2, quests)" by (cases "readJsonDir E ''quests'' w1")
  obtain w3 hideout where r3: "readJsonDir E ''hideout'' w2 = (w3, hideout)" by (cases "readJsonDir E ''hideout'' w2")
  have roots: "root w1 = root w" "root w2 = root w" "root w3 = root w"
    using r1 r2 r3 readJsonDir_root[of E "''items''" w] readJsonDir_root[of E "''quests''" w1]
      readJsonDir_root[of E "''hideout''" w2] by simp_all
  have vals: "items = snd (readJsonDir E ''items'' w)" "quests = snd (readJsonDir E ''quests'' w)"
       "hideout = snd (readJsonDir E ''hideout'' w)"
    using r1 r2 r3 roots readJsonDir_snd[of w1 w E "''quests''"] readJsonDir_snd[of w2 w E "''hideout''"]
    by simp_all
  have warn: "extends (\<lambda>e. \<not> dirEvent dir e) v (fst (readJsonDir E d v))" for d v
    by (rule extends_mono[OF extends_readJsonDir])
       (auto simp: dirEvent_def wroteIn_def removedIn_def)
  have "extends (\<lambda>e. \<not> dirEvent dir e) w w3"
    using warn[of w "''items''"] warn[of w1 "''quests''"] warn[of w2 "''hideout''"] r1 r2 r3
    by (auto intro: extends_trans)
  then obtain p0 where p0: "trace w3 = trace w @ p0" "list_all (\<lambda>e. \<not> dirEvent dir e) p0"
    by (auto simp: extends_def)
  have l1: "foreignStep dir (legacyFile ''items.json'' items v)" for v
    by (rule foreignStep_legacyFile) (use dir in simp_all)
  have l2: "foreignStep dir (legacyFile ''quests.json'' quests v)" for v
    by (rule foreignStep_legacyFile) (use dir in simp_all)
  have l3: "foreignStep dir (legacyFile ''hideoutModules.json'' hideout v)" for v
    by (rule foreignStep_legacyFile) (use dir in simp_all)
  have legacy: "foreignStep dir (andThen (legacyFile ''items.json'' items (legacyItems E items)) (\<lambda>u.
        andThen (legacyFile ''quests.json'' quests (JArr quests)) (\<lambda>u.
        andThen (legacyFile ''hideoutModules.json'' hideout (JArr hideout)) (\<lambda>u w.
          (console_log ''[aggregate] Done.'' w, Inr ())))))"
    by (intro foreignStep_andThen l1 l2 l3 foreignStep_done)
  have "runStep dir ds ?X (andThen (perDirectory E ''items'' items) (\<lambda>u.
        andThen (perDirectory E ''quests'' quests) (\<lambda>u.
        andThen (perDirectory E ''hideout'' hideout) (\<lambda>u.
        andThen (legacyFile ''items.json'' items (legacyItems E items)) (\<lambda>u.
        andThen (legacyFile ''quests.json'' quests (JArr quests)) (\<lambda>u.
        andThen (legacyFile ''hideoutModules.json'' hideout (JArr hideout)) (\<lambda>u w.
          (console_log ''[aggregate] Done.'' w, Inr ()))))))))"
  proof -
    from dir consider "dir = ''items''" | "dir = ''quests''" | "dir = ''hideout''" by auto
    then show ?thesis
    proof cases
      case 1
      with ne vals have own: "ownStep dir ds ?X (perDirectory E ''items'' items)"
        using ownStep_perDirectory[OF dir ds(2), of items E] by simp
      have f2: "foreignStep dir (perDirectory E ''quests'' quests)"
        by (rule foreignStep_perDirectory) (use 1 in simp_all)
      have f3: "foreignStep dir (perDirectory E ''hideout'' hideout)"
        by (rule foreignStep_perDirectory) (use 1 in simp_all)
      show ?thesis
        by (rule runStep_own[OF own]) (intro foreignStep_andThen f2 f3 legacy)
    next
      case 2
      with ne vals have own: "ownStep dir ds ?X (perDirectory E ''quests'' quests)"
        using ownStep_perDirectory[OF dir ds(2), of quests E] by simp
      have f1: "foreignStep dir (perDirectory E ''items'' items)"
        by (rule foreignStep_perDirectory) (use 2 in simp_all)
      have f3: "foreignStep dir (perDirectory E ''hideout'' hideout)"
        by (rule foreignStep_perDirectory) (use 2 in simp_all)
      show ?thesis
        by (rule runStep_after[OF f1], rule runStep_own[OF own]) (intro foreignStep_andThen f3 legacy)
    next
      case 3
      with ne vals have own: "ownStep dir ds ?X (perDirectory E ''hideout'' hideout)"
        using ownStep_perDirectory[OF dir ds(2), of hideout E] by simp
      have f1: "foreignStep dir (perDirectory E ''items'' items)"
        by (rule foreignStep_perDirectory) (use 3 in simp_all)
      have f2: "foreignStep dir (perDirectory E ''quests'' quests)"
        by (rule foreignStep_perDirectory) (use 3 in simp_all)
      show ?thesis
        by (rule runStep_after[OF f1], rule runStep_after[OF f2], rule runStep_own[OF own]) (rule legacy)
    qed
  qed
  moreover have "targetsWritable (root w3) \<and> map_of (root w3) dir = Some (Dir ds)"
    using tw ds(1) roots by simp
  ultimately obtain w' pre post where
    a: "aggregate E w = (w', Inr ())" and tr: "trace w' = trace w3 @ pre @ ?X @ post"
    and pp: "list_all (\<lambda>e. \<not> dirEvent dir e) pre" "list_all (\<lambda>e. \<not> dirEvent dir e) post"
    unfolding runStep_def aggregate_def r1 r2 r3 prod.case by blast
  from tr p0 have "trace w' = trace w @ (p0 @ pre) @ ?X @ post" by simp
  moreover from p0 pp have "list_all (\<lambda>e. \<not> dirEvent dir e) (p0 @ pre)" by simp
  ultimately show ?thesis using a pp(2) by blast
qed

section \<open>The claims about the files\<close>

lemma chunkArrays_Nil: "chunkArrays B [] = []"
  by (simp add: chunkArrays_def)

lemma field_manifest:
  "field ''chunks'' (manifest E names R) = Some (JArr (map JStr names))"
  "field ''count'' (manifest E names R) = Some (JNum (int (length R)))"
  "field ''maxChunkBytes'' (manifest E names R) = Some (JNum (MAX_CHUNK_BYTES E))"
  "field ''version'' (manifest E names R) =
     (case GITHUB_SHA E of None \<Rightarrow> None | Some s \<Rightarrow> if s = [] then None else Some (JStr s))"
  by (simp_all add: field_def manifest_def VERSION_def split: option.splits)

text \<open>
  Claim C5. When \<open>writeChunkedAll\<close> succeeds in a directory and the partition has
  \<open>N \<ge> 2\<close> chunks, it writes the chunks to \<open>all_1.json\<close>, ..., \<open>all_N.json\<close> in partition
  order and then the manifest to \<open>all.json\<close>. The manifest lists these \<open>N\<close> names in
  that order, its \<open>count\<close> is the length of the input, its \<open>maxChunkBytes\<close> is the
  budget, and it has a \<open>version\<close> exactly when \<open>GITHUB_SHA\<close> is set and not empty, in which
  case the value is that string; otherwise the property is absent.
\<close>

theorem manifest_of_several_chunks:
  assumes "stat (root w) dir = Inr True"
      and "writeChunkedAll E dir R w = (w', Inr names)"
      and "2 \<le> length (chunkArrays (MAX_CHUNK_BYTES E) R)"
  shows "names = map chunkName [0..<length (chunkArrays (MAX_CHUNK_BYTES E) R)]
     \<and> trace w' = trace w
          @ map (\<lambda>(k, c). Wrote [dir, chunkName k] (fileText (JArr c)))
              (enumerate 0 (chunkArrays (MAX_CHUNK_BYTES E) R))
          @ [Wrote [dir, ''all.json''] (fileText (manifest E names R))]
     \<and> field ''chunks'' (manifest E names R) = Some (JArr (map JStr names))
     \<and> length names = length (chunkArrays (MAX_CHUNK_BYTES E) R)
     \<and> field ''count'' (manifest E names R) = Some (JNum (int (length R)))
     \<and> field ''maxChunkBytes'' (manifest E names R) = Some (JNum (MAX_CHUNK_BYTES E))
     \<and> field ''version'' (manifest E names R) =
          (case GITHUB_SHA E of None \<Rightarrow> None | Some s \<Rightarrow> if s = [] then None else Some (JStr s))"
proof -
  from assms(3) have "R \<noteq> []" by (auto simp: chunkArrays_Nil)
  from writeChunkedAll_Inr[OF assms(1) this assms(2)] assms(3)
  have n: "names = map chunkName [0..<length (chunkArrays (MAX_CHUNK_BYTES E) R)]"
    and t: "trace w' = trace w
          @ map (\<lambda>(k, c). Wrote [dir, chunkName k] (fileText (JArr c)))
              (enumerate 0 (chunkArrays (MAX_CHUNK_BYTES E) R))
          @ [Wrote [dir, ''all.json''] (fileText (manifest E names R))]"
    by simp_all
  from n have "length names = length (chunkArrays (MAX_CHUNK_BYTES E) R)" by simp
  with n t show ?thesis by (simp only: field_manifest)
qed

theorem manifest_of_several_chunks_witness:
  "stat (root emptyItems) ''items'' = Inr True
   \<and> writeChunkedAll sampleEnv ''items'' [JObj [(''id'', JStr ''a'')], JObj [(''id'', JStr ''b'')]] emptyItems
       = (fst (writeChunkedAll sampleEnv ''items'' [JObj [(''id'', JStr ''a'')], JObj [(''id'', JStr ''b'')]] emptyItems),
          Inr [''all_1.json'', ''all_2.json''])
   \<and> 2 \<le> length (chunkArrays (MAX_CHUNK_BYTES sampleEnv) [JObj [(''id'', JStr ''a'')], JObj [(''id'', JStr ''b'')]])
   \<and> field ''count'' (manifest sampleEnv [''all_1.json'', ''all_2.json''] [JObj [(''id'', JStr ''a'')], JObj [(''id'', JStr ''b'')]])
       = Some (JNum 2)
   \<and> field ''version'' (manifest sampleEnv [''all_1.json'', ''all_2.json''] [JObj [(''id'', JStr ''a'')], JObj [(''id'', JStr ''b'')]])
       = Some (JStr ''abc'')"
proof -
  have h1: "stat (root emptyItems) ''items'' = Inr True" by code_simp
  have h2: "writeChunkedAll sampleEnv ''items'' [JObj [(''id'', JStr ''a'')], JObj [(''id'', JStr ''b'')]] emptyItems
       = (fst (writeChunkedAll sampleEnv ''items'' [JObj [(''id'', JStr ''a'')], JObj [(''id'', JStr ''b'')]] emptyItems),
          Inr [''all_1.json'', ''all_2.json''])" by code_simp
  have h3: "2 \<le> length (chunkArrays (MAX_CHUNK_BYTES sampleEnv) [JObj [(''id'', JStr ''a'')], JObj [(''id'', JStr ''b'')]])"
    by code_simp
  have g: "GITHUB_SHA sampleEnv = Some ''abc''" by (simp add: sampleEnv_def)
  note m = manifest_of_several_chunks[OF h1 h2 h3]
  from m have "field ''count'' (manifest sampleEnv [''all_1.json'', ''all_2.json''] [JObj [(''id'', JStr ''a'')], JObj [(''id'', JStr ''b'')]])
       = Some (JNum (int (length [JObj [(''id'', JStr ''a'')], JObj [(''id'', JStr ''b'')]])))"
    by (elim conjE)
  then have c: "field ''count'' (manifest sampleEnv [''all_1.json'', ''all_2.json''] [JObj [(''id'', JStr ''a'')], JObj [(''id'', JStr ''b'')]])
       = Some (JNum 2)" by simp
  from m have "field ''version'' (manifest sampleEnv [''all_1.json'', ''all_2.json''] [JObj [(''id'', JStr ''a'')], JObj [(''id'', JStr ''b'')]])
       = (case GITHUB_SHA sampleEnv of None \<Rightarrow> None | Some s \<Rightarrow> if s = [] then None else Some (JStr s))"
    by (elim conjE)
  with g have v: "field ''version'' (manifest sampleEnv [''all_1.json'', ''all_2.json''] [JObj [(''id'', JStr ''a'')], JObj [(''id'', JStr ''b'')]])
       = Some (JStr ''abc'')" by simp
  from h1 h2 h3 c v show ?thesis by (intro conjI)
qed

lemma stringify_JArr_hd: "hd (fileText (JArr vs)) = CHR ''[''"
  by (simp add: fileText_def JSON_stringify_def)

lemma stringify_manifest_hd: "hd (fileText (manifest E names R)) = CHR ''{''"
  by (simp add: fileText_def JSON_stringify_def manifest_def)

text \<open>
  Claim C6. When \<open>writeChunkedAll\<close> succeeds in a directory and the partition has
  exactly one chunk, it writes the whole record array to \<open>all_1.json\<close> and the same
  array to \<open>all.json\<close>, and nothing else: no manifest is written, the text of an array
  being different from the text of any manifest.
\<close>

theorem single_chunk_written_directly:
  assumes "stat (root w) dir = Inr True"
      and "writeChunkedAll E dir R w = (w', Inr names)"
      and "length (chunkArrays (MAX_CHUNK_BYTES E) R) = 1"
  shows "names = [''all_1.json'']
     \<and> trace w' = trace w @ [Wrote [dir, ''all_1.json''] (fileText (JArr R)),
                             Wrote [dir, ''all.json''] (fileText (JArr R))]
     \<and> fileText (JArr R) \<noteq> fileText (manifest E names R)"
proof -
  let ?cs = "chunkArrays (MAX_CHUNK_BYTES E) R"
  from assms(3) obtain c where cs: "?cs = [c]" by (cases ?cs) auto
  with concat_chunkArrays[of "MAX_CHUNK_BYTES E" R] have c: "c = R" by simp
  from assms(3) have "R \<noteq> []" by (auto simp: chunkArrays_Nil)
  from writeChunkedAll_Inr[OF assms(1) this assms(2)] cs c
  have "names = [''all_1.json'']"
    and "trace w' = trace w @ [Wrote [dir, ''all_1.json''] (fileText (JArr R)),
                             Wrote [dir, ''all.json''] (fileText (JArr R))]"
    by (simp_all add: chunkName_0)
  moreover have "fileText (JArr R) \<noteq> fileText (manifest E names R)"
    using stringify_JArr_hd[of R] stringify_manifest_hd[of E names R] by auto
  ultimately show ?thesis by simp
qed

theorem single_chunk_written_directly_witness:
  "stat (root emptyItems) ''items'' = Inr True
   \<and> writeChunkedAll sampleEnv ''items'' [JObj []] emptyItems
       = (fst (writeChunkedAll sampleEnv ''items'' [JObj []] emptyItems), Inr [''all_1.json''])
   \<and> length (chunkArrays (MAX_CHUNK_BYTES sampleEnv) [JObj []]) = 1
   \<and> trace (fst (writeChunkedAll sampleEnv ''items'' [JObj []] emptyItems))
       = trace emptyItems @ [Wrote [''items'', ''all_1.json''] (fileText (JArr [JObj []])),
                             Wrote [''items'', ''all.json''] (fileText (JArr [JObj []]))]"
proof -
  have h1: "stat (root emptyItems) ''items'' = Inr True" by code_simp
  have h2: "writeChunkedAll sampleEnv ''items'' [JObj []] emptyItems
       = (fst (writeChunkedAll sampleEnv ''items'' [JObj []] emptyItems), Inr [''all_1.json''])"
    by code_simp
  have h3: "length (chunkArrays (MAX_CHUNK_BYTES sampleEnv) [JObj []]) = 1" by code_simp
  from single_chunk_written_directly[OF h1 h2 h3]
  have "trace (fst (writeChunkedAll sampleEnv ''items'' [JObj []] emptyItems))
       = trace emptyItems @ [Wrote [''items'', ''all_1.json''] (fileText (JArr [JObj []])),
                             Wrote [''items'', ''all.json''] (fileText (JArr [JObj []]))]"
    by (elim conjE)
  with h1 h2 h3 show ?thesis by (intro conjI)
qed

text \<open>
  Claim C7. When the reader returns no record for one of the three collections, the
  partition of that input has no chunk, \<open>writeChunkedAll\<close> on it leaves the world as it
  is, and a run of \<open>aggregate\<close>, whether it completes or fails elsewhere, neither writes
  nor removes any file of that collection: no file in its directory (no numbered chunk,
  no \<open>all.json\<close>) and not its legacy root file.
\<close>

theorem empty_collection_writes_nothing:
  assumes "(dir, legacy) \<in> {(''items'', ''items.json''), (''quests'', ''quests.json''),
                              (''hideout'', ''hideoutModules.json'')}"
      and "snd (readJsonDir E dir w) = []"
  shows "chunkArrays (MAX_CHUNK_BYTES E) (snd (readJsonDir E dir w)) = []
     \<and> writeChunkedAll E dir (snd (readJsonDir E dir w)) w = (w, Inr [])
     \<and> (\<exists>new. trace (fst (aggregate E w)) = trace w @ new
               \<and> (\<forall>e\<in>set new. \<not> touches dir legacy e))"
proof -
  have other: "\<not> touches dir legacy e" if "dirEvent d e" and "d \<noteq> dir" for d e
    using that
    by (auto simp: dirEvent_def wroteIn_def removedIn_def touches_def inDir_def
        split: event.splits list.splits)
  have root: "\<not> touches dir legacy (Wrote [name] s)" if "name \<noteq> legacy" for name s
    using that by (simp add: touches_def inDir_def)
  have "extends (\<lambda>e. \<not> touches dir legacy e) w (fst (aggregate E w))"
  proof (rule aggregate_extends)
    show "snd (readJsonDir E ''items'' w) \<noteq> [] \<Longrightarrow>
      (\<forall>e. dirEvent ''items'' e \<longrightarrow> \<not> touches dir legacy e)
      \<and> (\<forall>s. \<not> touches dir legacy (Wrote [''items.json''] s))"
      using assms other[of "''items''"] root[of "''items.json''"] by auto
    show "snd (readJsonDir E ''quests'' w) \<noteq> [] \<Longrightarrow>
      (\<forall>e. dirEvent ''quests'' e \<longrightarrow> \<not> touches dir legacy e)
      \<and> (\<forall>s. \<not> touches dir legacy (Wrote [''quests.json''] s))"
      using assms other[of "''quests''"] root[of "''quests.json''"] by auto
    show "snd (readJsonDir E ''hideout'' w) \<noteq> [] \<Longrightarrow>
      (\<forall>e. dirEvent ''hideout'' e \<longrightarrow> \<not> touches dir legacy e)
      \<and> (\<forall>s. \<not> touches dir legacy (Wrote [''hideoutModules.json''] s))"
      using assms other[of "''hideout''"] root[of "''hideoutModules.json''"] by auto
  qed (simp_all add: touches_def)
  then have "\<exists>new. trace (fst (aggregate E w)) = trace w @ new
               \<and> (\<forall>e\<in>set new. \<not> touches dir legacy e)"
    by (simp add: extends_def list_all_iff)
  with assms(2) show ?thesis by (simp add: chunkArrays_Nil writeChunkedAll_def)
qed

theorem empty_collection_writes_nothing_witness:
  "(''items'', ''items.json'') \<in> {(''items'', ''items.json''), (''quests'', ''quests.json''),
                              (''hideout'', ''hideoutModules.json'')}
   \<and> snd (readJsonDir sampleEnv ''items'' questsOnly) = []
   \<and> (\<exists>new. trace (fst (aggregate sampleEnv questsOnly)) = trace questsOnly @ new
               \<and> (\<forall>e\<in>set new. \<not> touches ''items'' ''items.json'' e))"
proof -
  have h1: "(''items'', ''items.json'') \<in> {(''items'', ''items.json''), (''quests'', ''quests.json''),
                              (''hideout'', ''hideoutModules.json'')}" by simp
  have h2: "snd (readJsonDir sampleEnv ''items'' questsOnly) = []" by code_simp
  from empty_collection_writes_nothing[OF h1 h2] h1 h2 show ?thesis by blast
qed

text \<open>
  Claim C8. In a directory with distinct entry names, \<open>cleanAllFiles\<close> removes every
  entry that matches \<open>all.json\<close> or \<open>all_<digits>.json\<close> (in any letter case) and can be
  removed, each once and in the order of the listing, and leaves everything else,
  the matching entries whose removal fails among it: a failed removal is ignored and the
  cleaner always returns. The block of a directory with records is \<open>writeChunkedAll\<close>
  applied to the world the cleaner leaves, so that in a block that succeeds the removals
  come first and the writes of the new chunks and of \<open>all.json\<close> follow. A run whose write
  targets are all writable completes whatever \<open>rm\<close> does, and for each of the three
  directories that has records its events of that directory are exactly these removals
  followed by these writes.
\<close>

theorem stale_files_removed_best_effort:
  assumes "map_of (root w) dir = Some (Dir ds)" and "distinct (map fst ds)"
  shows "root (cleanAllFiles dir w)
           = AList.update dir (Dir (filter (\<lambda>e. \<not> (matchesAll (fst e) \<and> canRemove (snd e))) ds)) (root w)
     \<and> trace (cleanAllFiles dir w) = trace w @ removals dir ds
     \<and> (vals \<noteq> [] \<longrightarrow>
          perDirectory E dir vals w =
            (case writeChunkedAll E dir vals (cleanAllFiles dir w) of
               (w', Inl e) \<Rightarrow> (w', Inl e)
             | (w', Inr names) \<Rightarrow> (w', Inr ())))
     \<and> (vals \<noteq> [] \<longrightarrow> snd (perDirectory E dir vals w) = Inr () \<longrightarrow>
          trace (fst (perDirectory E dir vals w)) = trace w @ removals dir ds @ chunkWrites E dir vals)
     \<and> (targetsWritable (root w) \<longrightarrow> dir \<in> {''items'', ''quests'', ''hideout''} \<longrightarrow>
          snd (readJsonDir E dir w) \<noteq> [] \<longrightarrow>
          (\<exists>w' pre post. aggregate E w = (w', Inr ())
             \<and> trace w' = trace w @ pre
                  @ (removals dir ds @ chunkWrites E dir (snd (readJsonDir E dir w))) @ post
             \<and> list_all (\<lambda>e. \<not> dirEvent dir e) pre \<and> list_all (\<lambda>e. \<not> dirEvent dir e) post))
     \<and> (targetsWritable (root w) \<longrightarrow> (\<exists>w'. aggregate E w = (w', Inr ())))"
proof (intro conjI impI)
  show "root (cleanAllFiles dir w)
           = AList.update dir (Dir (filter (\<lambda>e. \<not> (matchesAll (fst e) \<and> canRemove (snd e))) ds)) (root w)"
    using assms by (rule cleanAllFiles_root)
  show "trace (cleanAllFiles dir w) = trace w @ removals dir ds"
    using assms by (rule cleanAllFiles_trace)
  show "perDirectory E dir vals w =
            (case writeChunkedAll E dir vals (cleanAllFiles dir w) of
               (w', Inl e) \<Rightarrow> (w', Inl e)
             | (w', Inr names) \<Rightarrow> (w', Inr ()))" if "vals \<noteq> []"
    using that by (rule perDirectory_unfold)
  show "trace (fst (perDirectory E dir vals w)) = trace w @ removals dir ds @ chunkWrites E dir vals"
    if "vals \<noteq> []" and "snd (perDirectory E dir vals w) = Inr ()"
    using assms that by (rule perDirectory_trace)
  show "\<exists>w' pre post. aggregate E w = (w', Inr ())
             \<and> trace w' = trace w @ pre
                  @ (removals dir ds @ chunkWrites E dir (snd (readJsonDir E dir w))) @ post
             \<and> list_all (\<lambda>e. \<not> dirEvent dir e) pre \<and> list_all (\<lambda>e. \<not> dirEvent dir e) post"
    if "targetsWritable (root w)" and "dir \<in> {''items'', ''quests'', ''hideout''}"
      and "snd (readJsonDir E dir w) \<noteq> []"
    using that(1,2) assms that(3) by (rule aggregate_run)
  show "\<exists>w'. aggregate E w = (w', Inr ())" if "targetsWritable (root w)"
    using that by (rule aggregate_ok)
qed

theorem stale_files_removed_best_effort_witness:
  "map_of (root staleItems) ''items''
     = Some (Dir [(''a.json'', File True True ''{}''),
                  (''ALL.json'', File True True (fileText (JArr [JObj []]))),
                  (''all_1.json'', File True True (fileText (JArr [JObj []]))),
                  (''all_7.json'', File False True ''oops'')])
   \<and> distinct [''a.json'', ''ALL.json'', ''all_1.json'', ''all_7.json'']
   \<and> targetsWritable (root staleItems)
   \<and> snd (readJsonDir sampleEnv ''items'' staleItems) = [JObj [], JArr [JObj []]]
   \<and> snd (perDirectory sampleEnv ''items'' [JObj [], JArr [JObj []]] staleItems) = Inr ()
   \<and> root (cleanAllFiles ''items'' staleItems)
       = [(''items'', Dir [(''a.json'', File True True ''{}''), (''all_7.json'', File False True ''oops'')])]
   \<and> trace (cleanAllFiles ''items'' staleItems)
       = [Removed [''items'', ''ALL.json''], Removed [''items'', ''all_1.json'']]
   \<and> trace (fst (perDirectory sampleEnv ''items'' [JObj [], JArr [JObj []]] staleItems))
       = [Removed [''items'', ''ALL.json''], Removed [''items'', ''all_1.json''],
          Wrote [''items'', ''all_1.json''] (fileText (JArr [JObj []])),
          Wrote [''items'', ''all_2.json''] (fileText (JArr [JArr [JObj []]])),
          Wrote [''items'', ''all.json'']
            (fileText (manifest sampleEnv [''all_1.json'', ''all_2.json''] [JObj [], JArr [JObj []]]))]
   \<and> (\<exists>w' pre post. aggregate sampleEnv staleItems = (w', Inr ())
         \<and> trace w' = trace staleItems @ pre
              @ ([Removed [''items'', ''ALL.json''], Removed [''items'', ''all_1.json'']]
                 @ [Wrote [''items'', ''all_1.json''] (fileText (JArr [JObj []])),
                    Wrote [''items'', ''all_2.json''] (fileText (JArr [JArr [JObj []]])),
                    Wrote [''items'', ''all.json'']
                      (fileText (manifest sampleEnv [''all_1.json'', ''all_2.json''] [JObj [], JArr [JObj []]]))])
              @ post
         \<and> list_all (\<lambda>e. \<not> dirEvent ''items'' e) pre \<and> list_all (\<lambda>e. \<not> dirEvent ''items'' e) post)"
proof -
  let ?ds = "[(''a.json'', File True True ''{}''),
                  (''ALL.json'', File True True (fileText (JArr [JObj []]))),
                  (''all_1.json'', File True True (fileText (JArr [JObj []]))),
                  (''all_7.json'', File False True ''oops'')]"
  let ?vals = "[JObj [], JArr [JObj []]]"
  have h1: "map_of (root staleItems) ''items'' = Some (Dir ?ds)"
    by (simp add: staleItems_def)
  have h2: "distinct (map fst ?ds)" by simp
  have h3: "targetsWritable (root staleItems)" by code_simp
  have h4: "''items'' \<in> {''items'', ''quests'', ''hideout''}" by simp
  have v: "snd (readJsonDir sampleEnv ''items'' staleItems) = ?vals" by code_simp
  have h5: "snd (readJsonDir sampleEnv ''items'' staleItems) \<noteq> []" by (simp add: v)
  have h6: "?vals \<noteq> []" by simp
  have h7: "snd (perDirectory sampleEnv ''items'' ?vals staleItems) = Inr ()" by code_simp
  have c: "AList.update ''items'' (Dir (filter (\<lambda>e. \<not> (matchesAll (fst e) \<and> canRemove (snd e))) ?ds))
              (root staleItems)
        = [(''items'', Dir [(''a.json'', File True True ''{}''), (''all_7.json'', File False True ''oops'')])]"
    by code_simp
  have r: "trace staleItems @ removals ''items'' ?ds
        = [Removed [''items'', ''ALL.json''], Removed [''items'', ''all_1.json'']]"
    by code_simp
  have r': "removals ''items'' ?ds
        = [Removed [''items'', ''ALL.json''], Removed [''items'', ''all_1.json'']]"
    by code_simp
  have cw: "chunkWrites sampleEnv ''items'' ?vals
        = [Wrote [''items'', ''all_1.json''] (fileText (JArr [JObj []])),
           Wrote [''items'', ''all_2.json''] (fileText (JArr [JArr [JObj []]])),
           Wrote [''items'', ''all.json'']
             (fileText (manifest sampleEnv [''all_1.json'', ''all_2.json''] [JObj [], JArr [JObj []]]))]"
    by code_simp
  have t0: "trace staleItems = []" by (simp add: staleItems_def)
  note t = stale_files_removed_best_effort[OF h1 h2, of ?vals sampleEnv]
  from t have "root (cleanAllFiles ''items'' staleItems)
           = AList.update ''items'' (Dir (filter (\<lambda>e. \<not> (matchesAll (fst e) \<and> canRemove (snd e))) ?ds))
              (root staleItems)" by (elim conjE)
  with c have a1: "root (cleanAllFiles ''items'' staleItems)
       = [(''items'', Dir [(''a.json'', File True True ''{}''), (''all_7.json'', File False True ''oops'')])]"
    by simp
  from t have "trace (cleanAllFiles ''items'' staleItems) = trace staleItems @ removals ''items'' ?ds"
    by (elim conjE)
  with r have a2: "trace (cleanAllFiles ''items'' staleItems)
       = [Removed [''items'', ''ALL.json''], Removed [''items'', ''all_1.json'']]" by simp
  from t h6 h7 have "trace (fst (perDirectory sampleEnv ''items'' ?vals staleItems))
      = trace staleItems @ removals ''items'' ?ds @ chunkWrites sampleEnv ''items'' ?vals"
    by blast
  then have a3: "trace (fst (perDirectory sampleEnv ''items'' ?vals staleItems))
       = [Removed [''items'', ''ALL.json''], Removed [''items'', ''all_1.json''],
          Wrote [''items'', ''all_1.json''] (fileText (JArr [JObj []])),
          Wrote [''items'', ''all_2.json''] (fileText (JArr [JArr [JObj []]])),
          Wrote [''items'', ''all.json'']
            (fileText (manifest sampleEnv [''all_1.json'', ''all_2.json''] [JObj [], JArr [JObj []]]))]"
    by (simp only: t0 r' cw append_Nil append_Cons)
  from t h3 h4 h5 have "\<exists>w' pre post. aggregate sampleEnv staleItems = (w', Inr ())
             \<and> trace w' = trace staleItems @ pre
                  @ (removals ''items'' ?ds
                     @ chunkWrites sampleEnv ''items'' (snd (readJsonDir sampleEnv ''items'' staleItems))) @ post
             \<and> list_all (\<lambda>e. \<not> dirEvent ''items'' e) pre \<and> list_all (\<lambda>e. \<not> dirEvent ''items'' e) post"
    by blast
  then have a4: "\<exists>w' pre post. aggregate sampleEnv staleItems = (w', Inr ())
         \<and> trace w' = trace staleItems @ pre
              @ ([Removed [''items'', ''ALL.json''], Removed [''items'', ''all_1.json'']]
                 @ [Wrote [''items'', ''all_1.json''] (fileText (JArr [JObj []])),
                    Wrote [''items'', ''all_2.json''] (fileText (JArr [JArr [JObj []]])),
                    Wrote [''items'', ''all.json'']
                      (fileText (manifest sampleEnv [''all_1.json'', ''all_2.json''] [JObj [], JArr [JObj []]]))])
              @ post
         \<and> list_all (\<lambda>e. \<not> dirEvent ''items'' e) pre \<and> list_all (\<lambda>e. \<not> dirEvent ''items'' e) post"
    by (simp only: v r' cw)
  have d: "distinct [''a.json'', ''ALL.json'', ''all_1.json'', ''all_7.json'']" by simp
  from h1 d h3 v h7 a1 a2 a3 a4 show ?thesis by (intro conjI)
qed

text \<open>
  Claim C9, as stated, fails: the input file \<open>a.json\<close> holds the text \<open>1\<close>, which
  \<open>JSON.parse\<close> accepts, and yet the reader returns no record for it and gives no
  warning. The returned sequence is not the sequence of the successfully parsed values.
\<close>

theorem number_file_parsed_but_not_returned:
  "JSON_parse sampleEnv ''1'' = Some (JNum 1)
   \<and> readFile (root numberFile) ''items'' ''a.json'' = Inr ''1''
   \<and> readJsonDir sampleEnv ''items'' numberFile = (numberFile, [])"
  by code_simp

text \<open>
  Claim C9, amended. The reader goes through the input files in the order of the sort
  and never fails on one of them: a file that cannot be read or parsed is skipped with
  one warning, and the result holds, in that order, exactly the parsed values that are
  objects or arrays. A file whose text parses to \<open>null\<close>, a boolean, a number or a string
  is skipped without a warning. The file system is left as it was.
\<close>

theorem reader_keeps_parsed_objects:
  "readJsonDir E dir w =
     (w\<lparr>trace := trace w @ map (\<lambda>f. Warned (skipMessage dir f))
                              (filter (\<lambda>f. parsedFile E (root w) dir f = None) (inputFiles E (root w) dir))\<rparr>,
      List.map_filter (keptValue E (root w) dir) (inputFiles E (root w) dir))"
proof (cases "stat (root w) dir = Inr True")
  case True
  then have "readJsonDir E dir w = readLoop E dir (inputFiles E (root w) dir) [] w"
    by (simp add: readJsonDir_def)
  then show ?thesis by (simp add: readLoop_eq)
next
  case False
  then have none: "readJsonDir E dir w = (w, [])"
    by (auto simp: readJsonDir_def split: sum.splits)
  from False have "inputFiles E (root w) dir = []" by (rule inputFiles_not_dir)
  with none show ?thesis by simp
qed

theorem reader_keeps_parsed_objects_witness:
  "inputFiles sampleEnv (root staleItems) ''items'' = [''a.json'', ''all_1.json'', ''all_7.json'']
   \<and> readJsonDir sampleEnv ''items'' staleItems
       = (staleItems\<lparr>trace := [Warned ''[aggregate] Skip invalid JSON: items/all_7.json'']\<rparr>,
          [JObj [], JArr [JObj []]])"
proof -
  have f: "inputFiles sampleEnv (root staleItems) ''items'' = [''a.json'', ''all_1.json'', ''all_7.json'']"
    by code_simp
  have t: "trace staleItems @ map (\<lambda>f. Warned (skipMessage ''items'' f))
             (filter (\<lambda>f. parsedFile sampleEnv (root staleItems) ''items'' f = None)
                [''a.json'', ''all_1.json'', ''all_7.json''])
           = [Warned ''[aggregate] Skip invalid JSON: items/all_7.json'']"
    by code_simp
  have v: "List.map_filter (keptValue sampleEnv (root staleItems) ''items'')
             [''a.json'', ''all_1.json'', ''all_7.json''] = [JObj [], JArr [JObj []]]"
    by code_simp
  from reader_keeps_parsed_objects[of sampleEnv "''items''" staleItems] f t v show ?thesis
    by simp
qed

lemma matchesAll_json: "matchesAll f \<Longrightarrow> endsWith (toLowerCase f) ''.json''"
  by (auto simp: matchesAll_def Let_def endsWith_def)

lemma inputFiles_iff:
  "g \<in> set (inputFiles E r dir) \<longleftrightarrow>
     g \<in> set (readdir r dir) \<and> endsWith (toLowerCase g) ''.json'' \<and> toLowerCase g \<noteq> ''all.json''"
  by (auto simp: inputFiles_def set_sortBy)

lemma set_map_filter: "set (List.map_filter f xs) = {y. \<exists>x\<in>set xs. f x = Some y}"
  by (induction xs) (auto split: option.splits)

text \<open>
  Claim C10. Among the entries of a directory whose lower-cased name ends in \<open>.json\<close>,
  the reader leaves out those whose lower-cased name is \<open>all.json\<close> and no other. A file
  whose name matches the cleaner's pattern without being \<open>all.json\<close>, such as
  \<open>all_1.json\<close> left by an earlier run, is therefore an input file, and when its text
  parses to an object or an array that value is among the records the reader returns;
  the cleaner afterwards deletes this very file.
\<close>

theorem numbered_chunk_files_are_read:
  assumes "map_of (root w) dir = Some (Dir ds)" and "distinct (map fst ds)"
      and "map_of ds f = Some (File True wr t)"
      and "matchesAll f" and "toLowerCase f \<noteq> ''all.json''"
      and "JSON_parse E t = Some v" and "truthy v \<and> typeof v = ''object''"
  shows "(\<forall>g\<in>set (readdir (root w) dir). endsWith (toLowerCase g) ''.json'' \<longrightarrow>
            (g \<in> set (inputFiles E (root w) dir)) = (toLowerCase g \<noteq> ''all.json''))
     \<and> f \<in> set (inputFiles E (root w) dir)
     \<and> v \<in> set (snd (readJsonDir E dir w))
     \<and> map_of (dirEntries (root (cleanAllFiles dir w)) dir) f = None"
proof -
  from assms(3) have "(f, File True wr t) \<in> set ds" by (rule map_of_SomeD)
  then have "f \<in> set (readdir (root w) dir)"
    using assms(1) by (force simp: readdir_def map_of_dirEntries)
  with assms(4,5) have inp: "f \<in> set (inputFiles E (root w) dir)"
    by (simp add: inputFiles_iff matchesAll_json)
  have "keptValue E (root w) dir f = Some v"
    using assms(1,3,6,7) by (simp add: keptValue_def parsedFile_def readFile_def map_of_dirEntries)
  with inp have rd: "v \<in> set (snd (readJsonDir E dir w))"
    by (auto simp: readJsonDir_eq set_map_filter)
  let ?ds' = "filter (\<lambda>e. \<not> (matchesAll (fst e) \<and> canRemove (snd e))) ds"
  have "dirEntries (root (cleanAllFiles dir w)) dir = ?ds'"
    by (simp add: cleanAllFiles_root[OF assms(1,2)] dirEntries_def AList.update_conv')
  moreover have "f \<notin> fst ` set ?ds'"
  proof
    assume "f \<in> fst ` set ?ds'"
    then obtain n where n: "(f, n) \<in> set ds" "\<not> (matchesAll f \<and> canRemove n)" by auto
    from n(1) assms(2,3) have "n = File True wr t" by (metis map_of_is_SomeI option.inject)
    with n(2) assms(4) show False by (simp add: canRemove_def)
  qed
  ultimately have cl: "map_of (dirEntries (root (cleanAllFiles dir w)) dir) f = None"
    by (simp add: map_of_eq_None_iff)
  from inp rd cl show ?thesis by (simp add: inputFiles_iff)
qed

theorem numbered_chunk_files_are_read_witness:
  "map_of (root staleItems) ''items''
     = Some (Dir [(''a.json'', File True True ''{}''),
                  (''ALL.json'', File True True (fileText (JArr [JObj []]))),
                  (''all_1.json'', File True True (fileText (JArr [JObj []]))),
                  (''all_7.json'', File False True ''oops'')])
   \<and> matchesAll ''all_1.json'' \<and> toLowerCase ''all_1.json'' \<noteq> ''all.json''
   \<and> JSON_parse sampleEnv (fileText (JArr [JObj []])) = Some (JArr [JObj []])
   \<and> ''all_1.json'' \<in> set (inputFiles sampleEnv (root staleItems) ''items'')
   \<and> JArr [JObj []] \<in> set (snd (readJsonDir sampleEnv ''items'' staleItems))
   \<and> map_of (dirEntries (root (cleanAllFiles ''items'' staleItems)) ''items'') ''all_1.json'' = None"
proof -
  have h1: "map_of (root staleItems) ''items''
     = Some (Dir [(''a.json'', File True True ''{}''),
                  (''ALL.json'', File True True (fileText (JArr [JObj []]))),
                  (''all_1.json'', File True True (fileText (JArr [JObj []]))),
                  (''all_7.json'', File False True ''oops'')])"
    by (simp add: staleItems_def)
  have h2: "distinct (map fst [(''a.json'', File True True ''{}''),
                  (''ALL.json'', File True True (fileText (JArr [JObj []]))),
                  (''all_1.json'', File True True (fileText (JArr [JObj []]))),
                  (''all_7.json'', File False True ''oops'')])"
    by simp
  have h3: "map_of [(''a.json'', File True True ''{}''),
                  (''ALL.json'', File True True (fileText (JArr [JObj []]))),
                  (''all_1.json'', File True True (fileText (JArr [JObj []]))),
                  (''all_7.json'', File False True ''oops'')] ''all_1.json''
             = Some (File True True (fileText (JArr [JObj []])))"
    by simp
  have h4: "matchesAll ''all_1.json''" by code_simp
  have h5: "toLowerCase ''all_1.json'' \<noteq> ''all.json''" by code_simp
  have h6: "JSON_parse sampleEnv (fileText (JArr [JObj []])) = Some (JArr [JObj []])"
    by code_simp
  have h7: "truthy (JArr [JObj []]) \<and> typeof (JArr [JObj []]) = ''object''" by simp
  from numbered_chunk_files_are_read[OF h1 h2 h3 h4 h5 h6 h7] h1 h4 h5 h6 show ?thesis by blast
qed

end
